theory Spec2Isabelle
  imports Main "HOL-Library.Word" "HOL-Library.Monad_Syntax"
begin

unbundle bit_operations_syntax

section \<open>The TLA+ modules \<open>STFSpec\<close> and \<open>RunInOrder\<close>\<close>

subsection \<open>Constants and variables\<close>

text \<open>
  A task of the control flow is a pair of a task name and an integer identifier. A task
  name is mapped by \<open>Tasks\<close> to its dependency on every data item: read (\<open>"R"\<close>), write
  (\<open>"W"\<close>) or none (\<open>"None"\<close>). \<open>Tasks\<close> is a TLA+ function with a domain, so it is a
  partial map here; \<open>Tasks[t][d]\<close> is \<open>Tasks_at C t d\<close>, which, as in TLA+, is an
  unspecified value when \<open>t\<close> is outside the domain. The constants of both modules are
  gathered in one record (\<open>STFSpec\<close> does not use \<open>Mapping\<close>).
\<close>

datatype dep = R | W | NoneDep

record ('t, 'd, 'w) constants =
  Data :: "'d set"
  Tasks :: "'t \<rightharpoonup> ('d \<Rightarrow> dep)"
  Workers :: "'w set"
  ControlFlow :: "('t \<times> int) set"
  Mapping :: "int \<Rightarrow> 'w"

text \<open>
  The constant \<open>Idle\<close> is the state of a worker that executes nothing; a busy worker holds
  its task. The worker state is an option, so that \<open>Idle\<close> is never a task.
\<close>

abbreviation Idle :: "('t \<times> int) option" where
  "Idle \<equiv> None"

definition Tasks_at :: "('t, 'd, 'w) constants \<Rightarrow> 't \<Rightarrow> 'd \<Rightarrow> dep" where
  "Tasks_at C t d = the (Tasks C t) d"

text \<open>
  The variables. Both modules have \<open>workerStates\<close>; \<open>STFSpec\<close> adds \<open>pendingTasks\<close>,
  \<open>RunInOrder\<close> adds \<open>workerPendingTasks\<close> and \<open>terminatedTasks\<close>. The TLA+ functions
  with domain \<open>Workers\<close> are total functions here; every operator below reads them at
  members of \<open>Workers\<close> only.
\<close>

record ('t, 'w) worker_vars =
  workerStates :: "'w \<Rightarrow> ('t \<times> int) option"

record ('t, 'w) stf_state = "('t, 'w) worker_vars" +
  pendingTasks :: "('t \<times> int) set"

record ('t, 'w) rio_state = "('t, 'w) worker_vars" +
  workerPendingTasks :: "'w \<Rightarrow> ('t \<times> int) set"
  terminatedTasks :: "('t \<times> int) set"

text \<open>Both modules define \<open>activeWorkers\<close> and \<open>activeTasks\<close> by the same text.\<close>

definition activeWorkers ::
  "('t, 'd, 'w) constants \<Rightarrow> ('t, 'w, 'z) worker_vars_scheme \<Rightarrow> 'w set" where
  "activeWorkers C s = {w \<in> Workers C. workerStates s w \<noteq> Idle}"

definition activeTasks ::
  "('t, 'd, 'w) constants \<Rightarrow> ('t, 'w, 'z) worker_vars_scheme \<Rightarrow> ('t \<times> int) set" where
  "activeTasks C s = (\<lambda>w. the (workerStates s w)) ` activeWorkers C s"

subsection \<open>Module \<open>STFSpec\<close>\<close>

definition STF_Init :: "('t, 'd, 'w) constants \<Rightarrow> ('t, 'w) stf_state \<Rightarrow> bool" where
  "STF_Init C s \<longleftrightarrow>
     pendingTasks s = ControlFlow C \<and>
     workerStates s = (\<lambda>w. Idle)"

definition STF_TypeOK :: "('t, 'd, 'w) constants \<Rightarrow> ('t, 'w) stf_state \<Rightarrow> bool" where
  "STF_TypeOK C s \<longleftrightarrow>
     (\<forall>t \<in> dom (Tasks C). \<forall>d \<in> Data C. Tasks_at C t d \<in> {R, W, NoneDep}) \<and>
     ControlFlow C \<subseteq> dom (Tasks C) \<times> UNIV \<and>
     activeTasks C s \<subseteq> ControlFlow C \<and>
     pendingTasks s \<subseteq> ControlFlow C"

definition DataRaceFreedom ::
  "('t, 'd, 'w) constants \<Rightarrow> ('t, 'w, 'z) worker_vars_scheme \<Rightarrow> bool" where
  "DataRaceFreedom C s \<longleftrightarrow>
     (\<forall>(task1, task2) \<in> activeTasks C s \<times> activeTasks C s.
        \<forall>d \<in> Data C.
          Tasks_at C (fst task1) d = W \<longrightarrow>
            snd task1 = snd task2 \<or> Tasks_at C (fst task2) d = NoneDep)"

definition STF_ReadReady ::
  "('t, 'd, 'w) constants \<Rightarrow> ('t, 'w) stf_state \<Rightarrow> 'd \<Rightarrow> int \<Rightarrow> bool" where
  "STF_ReadReady C s d tid \<longleftrightarrow>
     (\<forall>(t, otherTid) \<in> pendingTasks s \<union> activeTasks C s.
        Tasks_at C t d = NoneDep \<or> Tasks_at C t d = R \<or> otherTid \<ge> tid)"

definition STF_WriteReady ::
  "('t, 'd, 'w) constants \<Rightarrow> ('t, 'w) stf_state \<Rightarrow> 'd \<Rightarrow> int \<Rightarrow> bool" where
  "STF_WriteReady C s d tid \<longleftrightarrow>
     (\<forall>(t, otherTid) \<in> pendingTasks s \<union> activeTasks C s.
        Tasks_at C t d = NoneDep \<or> otherTid \<ge> tid)"

definition STF_TaskReady ::
  "('t, 'd, 'w) constants \<Rightarrow> ('t, 'w) stf_state \<Rightarrow> 't \<Rightarrow> int \<Rightarrow> bool" where
  "STF_TaskReady C s t tid \<longleftrightarrow>
     (\<forall>d \<in> Data C.
        Tasks_at C t d = NoneDep \<or>
        Tasks_at C t d = R \<and> STF_ReadReady C s d tid \<or>
        Tasks_at C t d = W \<and> STF_WriteReady C s d tid)"

definition STF_ExecuteTask ::
  "('t, 'd, 'w) constants \<Rightarrow> 'w \<Rightarrow> 't \<Rightarrow> int \<Rightarrow>
   ('t, 'w) stf_state \<Rightarrow> ('t, 'w) stf_state \<Rightarrow> bool" where
  "STF_ExecuteTask C w t tid s s' \<longleftrightarrow>
     STF_TaskReady C s t tid \<and>
     workerStates s w = Idle \<and>
     workerStates s' = (workerStates s)(w := Some (t, tid)) \<and>
     pendingTasks s' = pendingTasks s - {(t, tid)}"

definition STF_TerminateTask ::
  "('t, 'd, 'w) constants \<Rightarrow> 'w \<Rightarrow> ('t, 'w) stf_state \<Rightarrow> ('t, 'w) stf_state \<Rightarrow> bool" where
  "STF_TerminateTask C w s s' \<longleftrightarrow>
     workerStates s w \<in> Some ` (dom (Tasks C) \<times> UNIV) \<and>
     workerStates s' = (workerStates s)(w := Idle) \<and>
     pendingTasks s' = pendingTasks s"

definition STF_Next ::
  "('t, 'd, 'w) constants \<Rightarrow> ('t, 'w) stf_state \<Rightarrow> ('t, 'w) stf_state \<Rightarrow> bool" where
  "STF_Next C s s' \<longleftrightarrow>
     (\<exists>w \<in> Workers C.
        (\<exists>(t, tid) \<in> pendingTasks s. STF_ExecuteTask C w t tid s s') \<or>
        STF_TerminateTask C w s s')"

definition Terminated :: "('t, 'd, 'w) constants \<Rightarrow> ('t, 'w) stf_state \<Rightarrow> bool" where
  "Terminated C s \<longleftrightarrow> pendingTasks s \<union> activeTasks C s = {}"

subsection \<open>Behaviours and temporal operators\<close>

text \<open>
  A behaviour is an infinite sequence of states. For an action \<open>A\<close> over the tuple \<open>v\<close> of
  all variables of a module, \<open>square A\<close> is \<open>[A]_v\<close> (a step of \<open>A\<close> or a stuttering step),
  \<open>angle A\<close> is \<open>\<langle>A\<rangle>_v\<close> (a step of \<open>A\<close> that changes the state), \<open>ENABLED\<close> is
  enabledness, and \<open>WF A\<close> is weak fairness \<open>WF_v(A)\<close> as TLA+ defines it:
  infinitely often \<open>\<langle>A\<rangle>_v\<close> is disabled, or infinitely often a \<open>\<langle>A\<rangle>_v\<close> step occurs.
\<close>

type_synonym 's behavior = "nat \<Rightarrow> 's"

definition ENABLED :: "('s \<Rightarrow> 's \<Rightarrow> bool) \<Rightarrow> 's \<Rightarrow> bool" where
  "ENABLED A s \<longleftrightarrow> (\<exists>s'. A s s')"

definition angle :: "('s \<Rightarrow> 's \<Rightarrow> bool) \<Rightarrow> 's \<Rightarrow> 's \<Rightarrow> bool" where
  "angle A s s' \<longleftrightarrow> A s s' \<and> s' \<noteq> s"

definition square :: "('s \<Rightarrow> 's \<Rightarrow> bool) \<Rightarrow> 's \<Rightarrow> 's \<Rightarrow> bool" where
  "square A s s' \<longleftrightarrow> A s s' \<or> s' = s"

definition WF :: "('s \<Rightarrow> 's \<Rightarrow> bool) \<Rightarrow> 's behavior \<Rightarrow> bool" where
  "WF A \<sigma> \<longleftrightarrow>
     (\<forall>n. \<exists>m\<ge>n. \<not> ENABLED (angle A) (\<sigma> m)) \<or>
     (\<forall>n. \<exists>m\<ge>n. angle A (\<sigma> m) (\<sigma> (Suc m)))"

definition STF_Spec :: "('t, 'd, 'w) constants \<Rightarrow> ('t, 'w) stf_state behavior \<Rightarrow> bool" where
  "STF_Spec C \<sigma> \<longleftrightarrow>
     STF_Init C (\<sigma> 0) \<and>
     (\<forall>n. square (STF_Next C) (\<sigma> n) (\<sigma> (Suc n))) \<and>
     WF (STF_Next C) \<sigma>"

subsection \<open>Module \<open>RunInOrder\<close>\<close>

definition RIO_pendingTasks ::
  "('t, 'd, 'w) constants \<Rightarrow> ('t, 'w) rio_state \<Rightarrow> ('t \<times> int) set" where
  "RIO_pendingTasks C s = (\<Union>w \<in> Workers C. workerPendingTasks s w)"

definition RIO_Init :: "('t, 'd, 'w) constants \<Rightarrow> ('t, 'w) rio_state \<Rightarrow> bool" where
  "RIO_Init C s \<longleftrightarrow>
     terminatedTasks s = {} \<and>
     workerStates s = (\<lambda>w. Idle) \<and>
     workerPendingTasks s =
       (\<lambda>w. if w \<in> Workers C
            then {(t, tid). (t, tid) \<in> ControlFlow C \<and> Mapping C tid = w} else {})"

definition RIO_TypeOK :: "('t, 'd, 'w) constants \<Rightarrow> ('t, 'w) rio_state \<Rightarrow> bool" where
  "RIO_TypeOK C s \<longleftrightarrow>
     ControlFlow C \<subseteq> dom (Tasks C) \<times> UNIV \<and>
     (\<forall>t \<in> dom (Tasks C). \<forall>d \<in> Data C. Tasks_at C t d \<in> {R, W, NoneDep}) \<and>
     RIO_pendingTasks C s \<union> activeTasks C s \<union> terminatedTasks s = ControlFlow C"

definition RIO_ReadReady ::
  "('t, 'd, 'w) constants \<Rightarrow> ('t, 'w) rio_state \<Rightarrow> 'd \<Rightarrow> int \<Rightarrow> bool" where
  "RIO_ReadReady C s d tid \<longleftrightarrow>
     (\<forall>(t, other_tid) \<in> ControlFlow C.
        Tasks_at C t d = NoneDep \<or> Tasks_at C t d = R \<or> tid \<le> other_tid \<or>
        (t, other_tid) \<in> terminatedTasks s)"

definition RIO_WriteReady ::
  "('t, 'd, 'w) constants \<Rightarrow> ('t, 'w) rio_state \<Rightarrow> 'd \<Rightarrow> int \<Rightarrow> bool" where
  "RIO_WriteReady C s d tid \<longleftrightarrow>
     (\<forall>(t, other_tid) \<in> ControlFlow C.
        Tasks_at C t d = NoneDep \<or> tid \<le> other_tid \<or>
        (t, other_tid) \<in> terminatedTasks s)"

definition RIO_TaskReady ::
  "('t, 'd, 'w) constants \<Rightarrow> ('t, 'w) rio_state \<Rightarrow> 't \<Rightarrow> int \<Rightarrow> bool" where
  "RIO_TaskReady C s t tid \<longleftrightarrow>
     (\<forall>d \<in> Data C.
        Tasks_at C t d = NoneDep \<or>
        Tasks_at C t d = R \<and> RIO_ReadReady C s d tid \<or>
        Tasks_at C t d = W \<and> RIO_WriteReady C s d tid)"

definition RIO_ExecuteTask ::
  "('t, 'd, 'w) constants \<Rightarrow> 'w \<Rightarrow> ('t, 'w) rio_state \<Rightarrow> ('t, 'w) rio_state \<Rightarrow> bool" where
  "RIO_ExecuteTask C w s s' \<longleftrightarrow>
     workerStates s w = Idle \<and>
     (\<exists>(t, tid) \<in> workerPendingTasks s w.
        (\<forall>(other_t, other_tid) \<in> workerPendingTasks s w. tid \<le> other_tid) \<and>
        RIO_TaskReady C s t tid \<and>
        workerPendingTasks s' =
          (workerPendingTasks s)(w := workerPendingTasks s w - {(t, tid)}) \<and>
        workerStates s' = (workerStates s)(w := Some (t, tid)) \<and>
        terminatedTasks s' = terminatedTasks s)"

definition RIO_TerminateTask ::
  "('t, 'd, 'w) constants \<Rightarrow> 'w \<Rightarrow> ('t, 'w) rio_state \<Rightarrow> ('t, 'w) rio_state \<Rightarrow> bool" where
  "RIO_TerminateTask C w s s' \<longleftrightarrow>
     workerStates s w \<in> Some ` (dom (Tasks C) \<times> UNIV) \<and>
     workerStates s' = (workerStates s)(w := Idle) \<and>
     terminatedTasks s' = terminatedTasks s \<union> {the (workerStates s w)} \<and>
     workerPendingTasks s' = workerPendingTasks s"

definition RIO_Next ::
  "('t, 'd, 'w) constants \<Rightarrow> ('t, 'w) rio_state \<Rightarrow> ('t, 'w) rio_state \<Rightarrow> bool" where
  "RIO_Next C s s' \<longleftrightarrow>
     (\<exists>w \<in> Workers C. RIO_ExecuteTask C w s s' \<or> RIO_TerminateTask C w s s')"

definition RIO_Spec :: "('t, 'd, 'w) constants \<Rightarrow> ('t, 'w) rio_state behavior \<Rightarrow> bool" where
  "RIO_Spec C \<sigma> \<longleftrightarrow>
     RIO_Init C (\<sigma> 0) \<and>
     (\<forall>n. square (RIO_Next C) (\<sigma> n) (\<sigma> (Suc n))) \<and>
     WF (RIO_Next C) \<sigma>"

text \<open>
  \<open>STF == INSTANCE STFSpec\<close> substitutes the defined operator \<open>pendingTasks\<close> and the variable
  \<open>workerStates\<close> of \<open>RunInOrder\<close> for the variables of \<open>STFSpec\<close>: a formula \<open>STF!F\<close> is
  \<open>F\<close> of \<open>STFSpec\<close> read in the state \<open>STF C s\<close>, and \<open>STF!Spec\<close> of a behaviour \<open>\<sigma>\<close> is
  \<open>STF_Spec C (STF C \<circ> \<sigma>)\<close>.
\<close>

definition STF :: "('t, 'd, 'w) constants \<Rightarrow> ('t, 'w) rio_state \<Rightarrow> ('t, 'w) stf_state" where
  "STF C s = \<lparr>workerStates = workerStates s, pendingTasks = RIO_pendingTasks C s\<rparr>"

subsection \<open>Reachable states\<close>

inductive STF_reachable :: "('t, 'd, 'w) constants \<Rightarrow> ('t, 'w) stf_state \<Rightarrow> bool"
  for C :: "('t, 'd, 'w) constants" where
  init: "STF_Init C s \<Longrightarrow> STF_reachable C s"
| step: "STF_reachable C s \<Longrightarrow> STF_Next C s s' \<Longrightarrow> STF_reachable C s'"

inductive RIO_reachable :: "('t, 'd, 'w) constants \<Rightarrow> ('t, 'w) rio_state \<Rightarrow> bool"
  for C :: "('t, 'd, 'w) constants" where
  init: "RIO_Init C s \<Longrightarrow> RIO_reachable C s"
| step: "RIO_reachable C s \<Longrightarrow> RIO_Next C s s' \<Longrightarrow> RIO_reachable C s'"

subsection \<open>Well-formed constants\<close>

text \<open>
  \<open>Mapped C w\<close> is the set of tasks that \<open>Init\<close> puts in the queue of worker \<open>w\<close>. The
  mapping is into the workers when every identifier of the control flow is mapped to a member
  of \<open>Workers\<close>; the identifiers are bounded below when some integer is below all
  identifiers of the control flow, as it is for every finite control flow; they are unique
  when no two tasks of the control flow share one.
\<close>

definition Mapped :: "('t, 'd, 'w) constants \<Rightarrow> 'w \<Rightarrow> ('t \<times> int) set" where
  "Mapped C w = {(t, tid). (t, tid) \<in> ControlFlow C \<and> Mapping C tid = w}"

definition maps_to_workers :: "('t, 'd, 'w) constants \<Rightarrow> bool" where
  "maps_to_workers C \<longleftrightarrow> (\<forall>(t, tid) \<in> ControlFlow C. Mapping C tid \<in> Workers C)"

definition tids_bounded_below :: "('t, 'd, 'w) constants \<Rightarrow> bool" where
  "tids_bounded_below C \<longleftrightarrow> (\<exists>b. \<forall>x \<in> ControlFlow C. b \<le> snd x)"

definition unique_tids :: "('t, 'd, 'w) constants \<Rightarrow> bool" where
  "unique_tids C \<longleftrightarrow> inj_on snd (ControlFlow C)"

subsection \<open>Invariants used in the proofs\<close>

text \<open>
  In \<open>STFSpec\<close>: every active task is still ready (\<open>STF_ActiveReady\<close>); pending and active
  tasks belong to the control flow and finitely many workers are busy (\<open>STF_Inv\<close>). The
  measure counts a pending task twice and a busy worker once: every step decreases it.
\<close>

definition STF_ActiveReady :: "('t, 'd, 'w) constants \<Rightarrow> ('t, 'w) stf_state \<Rightarrow> bool" where
  "STF_ActiveReady C s \<longleftrightarrow> (\<forall>(t, tid) \<in> activeTasks C s. STF_TaskReady C s t tid)"

definition STF_Inv :: "('t, 'd, 'w) constants \<Rightarrow> ('t, 'w) stf_state \<Rightarrow> bool" where
  "STF_Inv C s \<longleftrightarrow>
     pendingTasks s \<subseteq> ControlFlow C \<and> activeTasks C s \<subseteq> ControlFlow C \<and>
     finite (activeWorkers C s)"

definition STF_measure :: "('t, 'd, 'w) constants \<Rightarrow> ('t, 'w) stf_state \<Rightarrow> nat" where
  "STF_measure C s = 2 * card (pendingTasks s) + card (activeWorkers C s)"

text \<open>
  In \<open>RunInOrder\<close>: the queue and the state of a worker hold tasks mapped to this worker
  only, a busy worker's task is neither queued nor terminated, terminated tasks are not
  queued (\<open>RIO_Inv\<close>); every task of the control flow is queued at, active on, or terminated
  after running on the worker it is mapped to (\<open>RIO_Cover\<close>).
\<close>

definition RIO_Inv :: "('t, 'd, 'w) constants \<Rightarrow> ('t, 'w) rio_state \<Rightarrow> bool" where
  "RIO_Inv C s \<longleftrightarrow>
     (\<forall>w \<in> Workers C. workerPendingTasks s w \<subseteq> Mapped C w) \<and>
     (\<forall>w \<in> Workers C. \<forall>x. workerStates s w = Some x \<longrightarrow>
        x \<in> Mapped C w \<and> x \<notin> workerPendingTasks s w \<and> x \<notin> terminatedTasks s) \<and>
     terminatedTasks s \<subseteq> ControlFlow C \<and>
     (\<forall>w \<in> Workers C. workerPendingTasks s w \<inter> terminatedTasks s = {})"

definition RIO_Cover :: "('t, 'd, 'w) constants \<Rightarrow> ('t, 'w) rio_state \<Rightarrow> bool" where
  "RIO_Cover C s \<longleftrightarrow>
     (\<forall>x \<in> ControlFlow C.
        x \<in> workerPendingTasks s (Mapping C (snd x)) \<or>
        workerStates s (Mapping C (snd x)) = Some x \<or>
        x \<in> terminatedTasks s)"

subsection \<open>The properties in the words of the specification\<close>

text \<open>
  The access list of a task holds the data items it reads or writes, with the mode. The
  readiness predicate of the dependency resolver, as the specification words it, over the
  set of unfinished (pending or active) tasks.
\<close>

definition access_list :: "('t, 'd, 'w) constants \<Rightarrow> 't \<Rightarrow> ('d \<times> dep) set" where
  "access_list C t = {(h, mode). h \<in> Data C \<and> Tasks_at C t h = mode \<and> mode \<noteq> NoneDep}"

definition spec_ready ::
  "('t, 'd, 'w) constants \<Rightarrow> ('t \<times> int) set \<Rightarrow> 't \<Rightarrow> int \<Rightarrow> bool" where
  "spec_ready C unfinished t tid \<longleftrightarrow>
     (\<forall>(h, mode) \<in> access_list C t.
        (mode = R \<longrightarrow>
           \<not> (\<exists>(t', tid') \<in> unfinished. tid' < tid \<and> Tasks_at C t' h = W)) \<and>
        (mode = W \<longrightarrow>
           \<not> (\<exists>(t', tid') \<in> unfinished. tid' < tid \<and> Tasks_at C t' h \<noteq> NoneDep)))"

text \<open>
  No two different active tasks conflict on a data item, one of them writing it.
\<close>

definition no_conflict ::
  "('t, 'd, 'w) constants \<Rightarrow> ('t, 'w, 'z) worker_vars_scheme \<Rightarrow> bool" where
  "no_conflict C s \<longleftrightarrow>
     (\<forall>T1 \<in> activeTasks C s. \<forall>T2 \<in> activeTasks C s. \<forall>H \<in> Data C.
        T1 \<noteq> T2 \<longrightarrow>
        \<not> (Tasks_at C (fst T1) H = W \<and> Tasks_at C (fst T2) H \<noteq> NoneDep))"

text \<open>
  The partition of the control flow: pending, active and terminated tasks cover it and are
  pairwise disjoint, a pending task is in the queue of exactly one worker and an active task
  is on exactly one worker.
\<close>

definition TaskPartition :: "('t, 'd, 'w) constants \<Rightarrow> ('t, 'w) rio_state \<Rightarrow> bool" where
  "TaskPartition C s \<longleftrightarrow>
     RIO_pendingTasks C s \<union> activeTasks C s \<union> terminatedTasks s = ControlFlow C \<and>
     RIO_pendingTasks C s \<inter> activeTasks C s = {} \<and>
     RIO_pendingTasks C s \<inter> terminatedTasks s = {} \<and>
     activeTasks C s \<inter> terminatedTasks s = {} \<and>
     (\<forall>x \<in> RIO_pendingTasks C s. \<exists>!w. w \<in> Workers C \<and> x \<in> workerPendingTasks s w) \<and>
     (\<forall>x \<in> activeTasks C s. \<exists>!w. w \<in> Workers C \<and> workerStates s w = Some x)"

text \<open>
  The tasks worker \<open>w\<close> starts during the first \<open>n\<close> steps of a behaviour, in the order it
  starts them: a step starts a task on \<open>w\<close> when \<open>w\<close> goes from idle to busy. \<open>InOrder\<close>
  relates this sequence to the queue of \<open>w\<close>.
\<close>

definition started ::
  "'w \<Rightarrow> ('t, 'w) rio_state \<Rightarrow> ('t, 'w) rio_state \<Rightarrow> ('t \<times> int) list" where
  "started w s s' =
     (case workerStates s w of
        Some x \<Rightarrow> []
      | None \<Rightarrow> (case workerStates s' w of Some y \<Rightarrow> [y] | None \<Rightarrow> []))"

fun executed :: "'w \<Rightarrow> ('t, 'w) rio_state behavior \<Rightarrow> nat \<Rightarrow> ('t \<times> int) list" where
  "executed w \<sigma> 0 = []"
| "executed w \<sigma> (Suc n) = executed w \<sigma> n @ started w (\<sigma> n) (\<sigma> (Suc n))"

definition InOrder ::
  "('t, 'd, 'w) constants \<Rightarrow> 'w \<Rightarrow> ('t, 'w) rio_state behavior \<Rightarrow> nat \<Rightarrow> bool" where
  "InOrder C w \<sigma> n \<longleftrightarrow>
     set (executed w \<sigma> n) = Mapped C w - workerPendingTasks (\<sigma> n) w \<and>
     (\<forall>x \<in> set (executed w \<sigma> n). \<forall>y \<in> workerPendingTasks (\<sigma> n) w. snd x < snd y) \<and>
     sorted_wrt (<) (map snd (executed w \<sigma> n))"

subsection \<open>Concrete control flows\<close>

text \<open>
  One writer followed by two readers of the same data item, on two workers with the mapping
  \<open>tid mod 2\<close>, and one complete run: the writer runs and terminates, then the two readers
  run at the same time and terminate.
\<close>

definition ex_C :: "(string, string, nat) constants" where
  "ex_C = \<lparr>Data = {''d''},
           Tasks = [''w'' \<mapsto> (\<lambda>d. W), ''r1'' \<mapsto> (\<lambda>d. R), ''r2'' \<mapsto> (\<lambda>d. R)],
           Workers = {0, 1},
           ControlFlow = {(''w'', 0), (''r1'', 1), (''r2'', 2)},
           Mapping = (\<lambda>tid. nat (tid mod 2))\<rparr>"

definition ex_s0 :: "(string, nat) rio_state" where
  "ex_s0 = \<lparr>workerStates = (\<lambda>w. Idle),
            workerPendingTasks = (\<lambda>w. {})(0 := {(''w'', 0), (''r2'', 2)}, 1 := {(''r1'', 1)}),
            terminatedTasks = {}\<rparr>"

definition ex_s1 :: "(string, nat) rio_state" where
  "ex_s1 = \<lparr>workerStates = (\<lambda>w. Idle)(0 := Some (''w'', 0)),
            workerPendingTasks = (\<lambda>w. {})(0 := {(''r2'', 2)}, 1 := {(''r1'', 1)}),
            terminatedTasks = {}\<rparr>"

definition ex_s2 :: "(string, nat) rio_state" where
  "ex_s2 = \<lparr>workerStates = (\<lambda>w. Idle),
            workerPendingTasks = (\<lambda>w. {})(0 := {(''r2'', 2)}, 1 := {(''r1'', 1)}),
            terminatedTasks = {(''w'', 0)}\<rparr>"

definition ex_s3 :: "(string, nat) rio_state" where
  "ex_s3 = \<lparr>workerStates = (\<lambda>w. Idle)(1 := Some (''r1'', 1)),
            workerPendingTasks = (\<lambda>w. {})(0 := {(''r2'', 2)}),
            terminatedTasks = {(''w'', 0)}\<rparr>"

definition ex_s4 :: "(string, nat) rio_state" where
  "ex_s4 = \<lparr>workerStates = (\<lambda>w. Idle)(0 := Some (''r2'', 2), 1 := Some (''r1'', 1)),
            workerPendingTasks = (\<lambda>w. {}),
            terminatedTasks = {(''w'', 0)}\<rparr>"

definition ex_s5 :: "(string, nat) rio_state" where
  "ex_s5 = \<lparr>workerStates = (\<lambda>w. Idle)(0 := Some (''r2'', 2)),
            workerPendingTasks = (\<lambda>w. {}),
            terminatedTasks = {(''w'', 0), (''r1'', 1)}\<rparr>"

definition ex_s6 :: "(string, nat) rio_state" where
  "ex_s6 = \<lparr>workerStates = (\<lambda>w. Idle),
            workerPendingTasks = (\<lambda>w. {}),
            terminatedTasks = {(''w'', 0), (''r1'', 1), (''r2'', 2)}\<rparr>"

definition ex_run :: "(string, nat) rio_state behavior" where
  "ex_run n = (if n < 6 then [ex_s0, ex_s1, ex_s2, ex_s3, ex_s4, ex_s5] ! n else ex_s6)"

text \<open>
  An unbounded control flow: one reader for every identifier \<open>\<le> 0\<close>, all mapped to the
  single worker, and the behaviour that stays in the initial state.
\<close>

definition inf_C :: "(string, string, nat) constants" where
  "inf_C = \<lparr>Data = {''d''},
            Tasks = [''r'' \<mapsto> (\<lambda>d. R)],
            Workers = {0},
            ControlFlow = {''r''} \<times> {..0},
            Mapping = (\<lambda>tid. 0)\<rparr>"

definition inf_s0 :: "(string, nat) rio_state" where
  "inf_s0 = \<lparr>workerStates = (\<lambda>w. Idle),
             workerPendingTasks = (\<lambda>w. {})(0 := {''r''} \<times> {..0}),
             terminatedTasks = {}\<rparr>"

definition stuck :: "(string, nat) rio_state behavior" where
  "stuck n = inf_s0"

text \<open>
  A mapping that leaves the set of workers, and the behaviour that stays in the initial state.
\<close>

definition off_C :: "(string, string, nat) constants" where
  "off_C = \<lparr>Data = {''d''},
            Tasks = [''w'' \<mapsto> (\<lambda>d. W)],
            Workers = {0},
            ControlFlow = {(''w'', 0)},
            Mapping = (\<lambda>tid. 1)\<rparr>"

definition off_s0 :: "(string, nat) rio_state" where
  "off_s0 = \<lparr>workerStates = (\<lambda>w. Idle),
             workerPendingTasks = (\<lambda>w. {}),
             terminatedTasks = {}\<rparr>"

definition off_run :: "(string, nat) rio_state behavior" where
  "off_run n = off_s0"

text \<open>
  A control flow with a task name outside the domain of \<open>Tasks\<close>: worker 0 starts the
  undefined task and the behaviour stays there.
\<close>

definition und_C :: "(string, string, nat) constants" where
  "und_C = \<lparr>Data = {},
            Tasks = [''a'' \<mapsto> (\<lambda>d. NoneDep)],
            Workers = {0, 1},
            ControlFlow = {(''u'', 1), (''a'', 3)},
            Mapping = (\<lambda>tid. 0)\<rparr>"

definition und_s0 :: "(string, nat) rio_state" where
  "und_s0 = \<lparr>workerStates = (\<lambda>w. Idle),
             workerPendingTasks = (\<lambda>w. {})(0 := {(''u'', 1), (''a'', 3)}),
             terminatedTasks = {}\<rparr>"

definition und_s1 :: "(string, nat) rio_state" where
  "und_s1 = \<lparr>workerStates = (\<lambda>w. Idle)(0 := Some (''u'', 1)),
             workerPendingTasks = (\<lambda>w. {})(0 := {(''a'', 3)}),
             terminatedTasks = {}\<rparr>"

definition und_run :: "(string, nat) rio_state behavior" where
  "und_run n = (if n = 0 then und_s0 else und_s1)"

section \<open>The random-dependencies driver (starpu/counter\_deps.c)\<close>

text \<open>
  All integers of the driver are \<^verbatim>\<open>uint64_t\<close>: they are modelled as 64-bit words, so
  shifts drop the bits that leave the word and \<^verbatim>\<open>%\<close> is the unsigned remainder.
\<close>

type_synonym u64 = "64 word"

definition DATA_SHIFT :: nat where
  "DATA_SHIFT = 7"

definition N_DATA :: u64 where
  "N_DATA = push_bit DATA_SHIFT 1"

record random_number_generator_t =
  state :: u64

definition rng_new :: random_number_generator_t where
  "rng_new = \<lparr>state = 0x92d68ca2\<rparr>"

text \<open>
  \<^verbatim>\<open>rng_next\<close> updates the generator in place and returns the new state; the model
  returns the value together with the updated generator.
\<close>

definition rng_next :: "random_number_generator_t \<Rightarrow> u64 \<times> random_number_generator_t" where
  "rng_next rng =
     (let x = state rng;
          x = x XOR push_bit 13 x;
          x = x XOR drop_bit 7 x;
          x = x XOR push_bit 17 x
      in (x, rng\<lparr>state := x\<rparr>))"

datatype starpu_data_access_mode = STARPU_R | STARPU_W | STARPU_RW

record starpu_codelet =
  nbuffers :: nat
  modes :: "starpu_data_access_mode list"
  name :: string

definition count1_codelet :: starpu_codelet where
  "count1_codelet = \<lparr>nbuffers = 1, modes = [STARPU_R], name = ''count1''\<rparr>"

definition count2_codelet :: starpu_codelet where
  "count2_codelet = \<lparr>nbuffers = 2, modes = [STARPU_R, STARPU_R], name = ''count2''\<rparr>"

definition count3_codelet :: starpu_codelet where
  "count3_codelet =
     \<lparr>nbuffers = 3, modes = [STARPU_R, STARPU_R, STARPU_RW], name = ''count3''\<rparr>"

text \<open>
  A data handle is opaque to the driver; the handle registered at position \<open>i\<close> of the
  array \<^verbatim>\<open>H\<close> is \<open>Handle i\<close>. \<^verbatim>\<open>init\<close> reads \<^verbatim>\<open>N_TASKS\<close> and \<^verbatim>\<open>N\<close> from the
  command line, starts StarPU, allocates \<^verbatim>\<open>N_DATA\<close> slots and registers one handle in
  each; the model is the array \<^verbatim>\<open>H\<close> it leaves, and \<^verbatim>\<open>N_TASKS\<close> is a parameter of
  \<^verbatim>\<open>run\<close> below.
\<close>

datatype starpu_data_handle_t = Handle nat

definition init :: "starpu_data_handle_t list" where
  "init = map Handle [0..<unat N_DATA]"

text \<open>
  Reading \<^verbatim>\<open>H[idx]\<close>: C does not check the index, and a read past the allocation is
  undefined behaviour; the model makes it the value \<open>None\<close>.
\<close>

definition H_read :: "starpu_data_handle_t list \<Rightarrow> u64 \<Rightarrow> starpu_data_handle_t option" where
  "H_read H idx = (if unat idx < length H then Some (H ! unat idx) else None)"

definition idx_1 :: "u64 \<Rightarrow> u64" where
  "idx_1 x = x mod N_DATA"

definition idx_2 :: "u64 \<Rightarrow> u64" where
  "idx_2 x = drop_bit DATA_SHIFT x mod N_DATA"

definition idx_3 :: "u64 \<Rightarrow> u64" where
  "idx_3 x = drop_bit (2 * DATA_SHIFT) x mod N_DATA"

text \<open>
  A task as the driver fills it in: the codelet and the handle slots it assigned, in
  slot order (\<^verbatim>\<open>handles[0]\<close>, \<^verbatim>\<open>handles[1]\<close>, ...).
\<close>

record starpu_task =
  cl :: starpu_codelet
  handles :: "starpu_data_handle_t list"

text \<open>The four arms of the conditional in the loop body of \<^verbatim>\<open>run\<close>, in source order.\<close>

datatype run_branch = Arm_1_eq_2_eq_3 | Arm_1_eq_2 | Arm_3_collides | Arm_else

definition run_branch :: "u64 \<Rightarrow> run_branch" where
  "run_branch x =
     (if idx_1 x = idx_2 x then
        (if idx_1 x = idx_3 x then Arm_1_eq_2_eq_3 else Arm_1_eq_2)
      else
        (if idx_1 x = idx_3 x \<or> idx_2 x = idx_3 x then Arm_3_collides else Arm_else))"

text \<open>
  The loop body of \<^verbatim>\<open>run\<close> for one generated value \<open>x\<close>: the task that is submitted,
  or \<open>None\<close> when a read of \<^verbatim>\<open>H\<close> is out of bounds.
\<close>

definition run_body :: "starpu_data_handle_t list \<Rightarrow> u64 \<Rightarrow> starpu_task option" where
  "run_body H x =
     (if idx_1 x = idx_2 x then
        (if idx_1 x = idx_3 x then
           do { h0 \<leftarrow> H_read H (idx_1 x);
                Some \<lparr>cl = count1_codelet, handles = [h0]\<rparr> }
         else
           do { h0 \<leftarrow> H_read H (idx_1 x);
                h1 \<leftarrow> H_read H (idx_3 x);
                Some \<lparr>cl = count2_codelet, handles = [h0, h1]\<rparr> })
      else
        (if idx_1 x = idx_3 x \<or> idx_2 x = idx_3 x then
           do { h0 \<leftarrow> H_read H (idx_1 x);
                h1 \<leftarrow> H_read H (idx_2 x);
                Some \<lparr>cl = count2_codelet, handles = [h0, h1]\<rparr> }
         else
           do { h0 \<leftarrow> H_read H (idx_1 x);
                h1 \<leftarrow> H_read H (idx_2 x);
                h2 \<leftarrow> H_read H (idx_3 x);
                Some \<lparr>cl = count2_codelet, handles = [h0, h1, h2]\<rparr> }))"

text \<open>
  \<^verbatim>\<open>run\<close>: \<open>n\<close> iterations of the loop (\<open>n\<close> is \<^verbatim>\<open>N_TASKS\<close>), threading the
  generator; the result is the list of submitted tasks in submission order.
\<close>

fun run_loop ::
  "starpu_data_handle_t list \<Rightarrow> nat \<Rightarrow> random_number_generator_t \<Rightarrow> starpu_task list option"
where
  "run_loop H 0 rng = Some []"
| "run_loop H (Suc n) rng =
     (case rng_next rng of (x, rng') \<Rightarrow>
        do { task \<leftarrow> run_body H x;
             rest \<leftarrow> run_loop H n rng';
             Some (task # rest) })"

definition run :: "starpu_data_handle_t list \<Rightarrow> nat \<Rightarrow> starpu_task list option" where
  "run H n = run_loop H n rng_new"

text \<open>
  What a submitted task accesses is decided by its codelet: StarPU takes the first
  \<open>nbuffers\<close> handle slots, slot \<open>i\<close> with mode \<open>modes[i]\<close>, and ignores the other slots.
\<close>

definition task_accesses ::
  "starpu_task \<Rightarrow> (starpu_data_handle_t \<times> starpu_data_access_mode) list" where
  "task_accesses task = zip (take (nbuffers (cl task)) (handles task)) (modes (cl task))"

section \<open>Lemmas\<close>

subsection \<open>Data-race freedom of \<open>STFSpec\<close>\<close>

lemma activeTasks_iff:
  "x \<in> activeTasks C s \<longleftrightarrow> (\<exists>w \<in> Workers C. workerStates s w = Some x)"
  by (auto simp: activeTasks_def activeWorkers_def image_iff)

lemma STF_TaskReady_antimono:
  assumes "pendingTasks s' \<union> activeTasks C s' \<subseteq> pendingTasks s \<union> activeTasks C s"
    and "STF_TaskReady C s t tid"
  shows "STF_TaskReady C s' t tid"
proof -
  have r: "STF_ReadReady C s d i \<Longrightarrow> STF_ReadReady C s' d i" for d i
    using assms(1) unfolding STF_ReadReady_def by blast
  have w: "STF_WriteReady C s d i \<Longrightarrow> STF_WriteReady C s' d i" for d i
    using assms(1) unfolding STF_WriteReady_def by blast
  show ?thesis
    using assms(2) r w unfolding STF_TaskReady_def by blast
qed

lemma activeTasks_upd_Some:
  assumes w: "w \<in> Workers C" and idle: "workerStates s w = Idle"
    and ws: "workerStates s' = (workerStates s)(w := Some x)"
  shows "activeTasks C s' = insert x (activeTasks C s)"
proof (rule set_eqI)
  fix y
  show "y \<in> activeTasks C s' \<longleftrightarrow> y \<in> insert x (activeTasks C s)"
  proof
    assume "y \<in> activeTasks C s'"
    then obtain v where v: "v \<in> Workers C" "workerStates s' v = Some y"
      unfolding activeTasks_iff by blast
    show "y \<in> insert x (activeTasks C s)"
    proof (cases "v = w")
      case True
      with v ws show ?thesis by simp
    next
      case False
      with v ws have "workerStates s v = Some y" by simp
      with v(1) have "y \<in> activeTasks C s" unfolding activeTasks_iff by blast
      then show ?thesis by simp
    qed
  next
    assume "y \<in> insert x (activeTasks C s)"
    then consider "y = x" | "y \<in> activeTasks C s" by blast
    then show "y \<in> activeTasks C s'"
    proof cases
      case 1
      with ws have "workerStates s' w = Some y" by simp
      with w show ?thesis unfolding activeTasks_iff by blast
    next
      case 2
      then obtain v where v: "v \<in> Workers C" "workerStates s v = Some y"
        unfolding activeTasks_iff by blast
      with idle have "v \<noteq> w" by auto
      with v ws have "workerStates s' v = Some y" by simp
      with v(1) show ?thesis unfolding activeTasks_iff by blast
    qed
  qed
qed

lemma activeTasks_upd_Idle:
  assumes ws: "workerStates s' = (workerStates s)(w := Idle)"
  shows "activeTasks C s' \<subseteq> activeTasks C s"
proof
  fix y
  assume "y \<in> activeTasks C s'"
  then obtain v where v: "v \<in> Workers C" "workerStates s' v = Some y"
    unfolding activeTasks_iff by blast
  with ws have "v \<noteq> w" by auto
  with v ws have "workerStates s v = Some y" by simp
  with v(1) show "y \<in> activeTasks C s" unfolding activeTasks_iff by blast
qed

lemma STF_Execute_active:
  assumes "STF_ExecuteTask C w t tid s s'" "w \<in> Workers C"
  shows "activeTasks C s' = insert (t, tid) (activeTasks C s)"
  using assms(1) by (intro activeTasks_upd_Some [OF assms(2)]) (simp_all add: STF_ExecuteTask_def)

lemma STF_Terminate_active:
  assumes "STF_TerminateTask C w s s'"
  shows "activeTasks C s' \<subseteq> activeTasks C s"
  using assms by (intro activeTasks_upd_Idle [of _ _ w]) (simp add: STF_TerminateTask_def)

lemma STF_Next_shrinks:
  assumes "STF_Next C s s'"
  shows "pendingTasks s' \<union> activeTasks C s' \<subseteq> pendingTasks s \<union> activeTasks C s"
proof -
  from assms obtain w where w: "w \<in> Workers C"
    and d: "(\<exists>(t, tid) \<in> pendingTasks s. STF_ExecuteTask C w t tid s s') \<or> STF_TerminateTask C w s s'"
    unfolding STF_Next_def by blast
  from d show ?thesis
  proof
    assume "\<exists>(t, tid) \<in> pendingTasks s. STF_ExecuteTask C w t tid s s'"
    then obtain t tid where p: "(t, tid) \<in> pendingTasks s" and e: "STF_ExecuteTask C w t tid s s'"
      by blast
    have "pendingTasks s' = pendingTasks s - {(t, tid)}"
      using e by (simp add: STF_ExecuteTask_def)
    with STF_Execute_active [OF e w] p show ?thesis by auto
  next
    assume t: "STF_TerminateTask C w s s'"
    then have "pendingTasks s' = pendingTasks s" by (simp add: STF_TerminateTask_def)
    with STF_Terminate_active [OF t] show ?thesis by auto
  qed
qed

lemma STF_ActiveReady_Init: "STF_Init C s \<Longrightarrow> STF_ActiveReady C s"
  by (simp add: STF_Init_def STF_ActiveReady_def activeTasks_def activeWorkers_def)

lemma STF_ActiveReady_Next:
  assumes inv: "STF_ActiveReady C s" and nxt: "STF_Next C s s'"
  shows "STF_ActiveReady C s'"
proof -
  note sub = STF_Next_shrinks [OF nxt]
  from nxt obtain w where w: "w \<in> Workers C"
    and d: "(\<exists>(t, tid) \<in> pendingTasks s. STF_ExecuteTask C w t tid s s') \<or> STF_TerminateTask C w s s'"
    unfolding STF_Next_def by blast
  have "STF_TaskReady C s' t tid" if a: "(t, tid) \<in> activeTasks C s'" for t tid
  proof -
    have "STF_TaskReady C s t tid"
      using d
    proof
      assume "\<exists>(t, tid) \<in> pendingTasks s. STF_ExecuteTask C w t tid s s'"
      then obtain t0 tid0 where e: "STF_ExecuteTask C w t0 tid0 s s'" by blast
      from a STF_Execute_active [OF e w]
      have "(t, tid) = (t0, tid0) \<or> (t, tid) \<in> activeTasks C s" by blast
      then show ?thesis
        using e inv by (auto simp: STF_ExecuteTask_def STF_ActiveReady_def)
    next
      assume "STF_TerminateTask C w s s'"
      from STF_Terminate_active [OF this] a inv show ?thesis
        by (auto simp: STF_ActiveReady_def)
    qed
    with sub show ?thesis by (rule STF_TaskReady_antimono)
  qed
  then show ?thesis by (auto simp: STF_ActiveReady_def)
qed

lemma STF_reachable_ActiveReady: "STF_reachable C s \<Longrightarrow> STF_ActiveReady C s"
  by (induction rule: STF_reachable.induct)
     (auto intro: STF_ActiveReady_Init STF_ActiveReady_Next)

lemma ready_pair_compatible:
  assumes r1: "STF_TaskReady C s t1 i1" and r2: "STF_TaskReady C s t2 i2"
    and a1: "(t1, i1) \<in> activeTasks C s" and a2: "(t2, i2) \<in> activeTasks C s"
    and d: "d \<in> Data C" and w: "Tasks_at C t1 d = W" and ne: "i1 \<noteq> i2"
  shows "Tasks_at C t2 d = NoneDep"
proof (cases "i2 < i1")
  case True
  from r1 d w have "STF_WriteReady C s d i1"
    by (auto simp: STF_TaskReady_def)
  with a2 have "Tasks_at C t2 d = NoneDep \<or> i1 \<le> i2"
    unfolding STF_WriteReady_def by blast
  with True show ?thesis by simp
next
  case False
  with ne have lt: "i1 < i2" by simp
  show ?thesis
  proof (cases "Tasks_at C t2 d")
    case R
    with r2 d have "STF_ReadReady C s d i2" by (auto simp: STF_TaskReady_def)
    with a1 have "Tasks_at C t1 d = NoneDep \<or> Tasks_at C t1 d = R \<or> i2 \<le> i1"
      unfolding STF_ReadReady_def by blast
    with lt w show ?thesis by simp
  next
    case W
    with r2 d have "STF_WriteReady C s d i2" by (auto simp: STF_TaskReady_def)
    with a1 have "Tasks_at C t1 d = NoneDep \<or> i2 \<le> i1"
      unfolding STF_WriteReady_def by blast
    with lt w show ?thesis by simp
  next
    case NoneDep
    then show ?thesis .
  qed
qed

lemma ActiveReady_DataRaceFreedom:
  assumes "STF_ActiveReady C s"
  shows "DataRaceFreedom C s"
proof -
  have "snd x = snd y \<or> Tasks_at C (fst y) d = NoneDep"
    if a1: "x \<in> activeTasks C s" and a2: "y \<in> activeTasks C s"
      and d: "d \<in> Data C" and w: "Tasks_at C (fst x) d = W" for x y d
  proof (cases "snd x = snd y")
    case True
    then show ?thesis by simp
  next
    case False
    from assms a1 have r1: "STF_TaskReady C s (fst x) (snd x)"
      unfolding STF_ActiveReady_def by (cases x) auto
    from assms a2 have r2: "STF_TaskReady C s (fst y) (snd y)"
      unfolding STF_ActiveReady_def by (cases y) auto
    from a1 a2 have "(fst x, snd x) \<in> activeTasks C s" "(fst y, snd y) \<in> activeTasks C s"
      by simp_all
    from ready_pair_compatible [OF r1 r2 this d w False] show ?thesis ..
  qed
  then show ?thesis
    unfolding DataRaceFreedom_def by (simp add: split_paired_all) 
qed

subsection \<open>Termination of \<open>STFSpec\<close>\<close>

lemma min_tid_exists:
  fixes S :: "('t \<times> int) set"
  assumes "finite S" "S \<noteq> {}"
  shows "\<exists>x \<in> S. \<forall>y \<in> S. snd x \<le> snd y"
proof -
  let ?m = "Min (snd ` S)"
  from assms have "?m \<in> snd ` S" by (intro Min_in) auto
  then obtain x where x: "x \<in> S" "snd x = ?m" by auto
  have "snd x \<le> snd y" if "y \<in> S" for y
    using assms(1) that x(2) by simp
  with x(1) show ?thesis by blast
qed

lemma min_tid_exists_bounded:
  fixes S :: "('t \<times> int) set"
  assumes ne: "S \<noteq> {}" and bnd: "\<forall>x \<in> S. b \<le> snd x"
  shows "\<exists>x \<in> S. \<forall>y \<in> S. snd x \<le> snd y"
proof -
  from ne obtain z where "z \<in> S" by blast
  from ex_has_least_nat [of "\<lambda>x. x \<in> S" z "\<lambda>x. nat (snd x - b)"] this
  obtain x where x: "x \<in> S" and least: "\<forall>y. y \<in> S \<longrightarrow> nat (snd x - b) \<le> nat (snd y - b)"
    by blast
  have "snd x \<le> snd y" if "y \<in> S" for y
  proof -
    from least that have "nat (snd x - b) \<le> nat (snd y - b)" by blast
    moreover from bnd x that have "b \<le> snd x" "b \<le> snd y" by simp_all
    ultimately show ?thesis by linarith
  qed
  with x show ?thesis by blast
qed

lemma finite_tids_bounded_below:
  assumes "finite (ControlFlow C)"
  shows "tids_bounded_below C"
proof (cases "ControlFlow C = {}")
  case True
  then show ?thesis by (simp add: tids_bounded_below_def)
next
  case False
  with assms have "\<forall>x \<in> ControlFlow C. Min (snd ` ControlFlow C) \<le> snd x" by simp
  then show ?thesis unfolding tids_bounded_below_def ..
qed

lemma activeWorkers_upd_Some:
  assumes "w \<in> Workers C" "workerStates s' = (workerStates s)(w := Some x)"
  shows "activeWorkers C s' = insert w (activeWorkers C s)"
  using assms by (auto simp: activeWorkers_def)

lemma activeWorkers_upd_Idle:
  assumes "workerStates s' = (workerStates s)(w := Idle)"
  shows "activeWorkers C s' = activeWorkers C s - {w}"
  using assms by (auto simp: activeWorkers_def)

lemma STF_Inv_Init: "STF_Init C s \<Longrightarrow> STF_Inv C s"
  by (simp add: STF_Init_def STF_Inv_def activeTasks_def activeWorkers_def)

lemma STF_Next_cases:
  assumes "STF_Next C s s'"
  obtains (exec) w t tid where "w \<in> Workers C" "(t, tid) \<in> pendingTasks s"
      "STF_ExecuteTask C w t tid s s'"
  | (finish) w where "w \<in> Workers C" "STF_TerminateTask C w s s'"
  using assms unfolding STF_Next_def by blast

lemma STF_Inv_Next:
  assumes inv: "STF_Inv C s" and nxt: "STF_Next C s s'"
  shows "STF_Inv C s'"
  using nxt
proof (cases rule: STF_Next_cases)
  case (exec w t tid)
  then have ws: "workerStates s' = (workerStates s)(w := Some (t, tid))"
    and p: "pendingTasks s' = pendingTasks s - {(t, tid)}"
    by (simp_all add: STF_ExecuteTask_def)
  from STF_Execute_active [OF exec(3) exec(1)] activeWorkers_upd_Some [OF exec(1) ws] p inv exec(2)
  show ?thesis by (auto simp: STF_Inv_def)
next
  case (finish w)
  then have ws: "workerStates s' = (workerStates s)(w := Idle)"
    and p: "pendingTasks s' = pendingTasks s"
    by (simp_all add: STF_TerminateTask_def)
  from STF_Terminate_active [OF finish(2)] activeWorkers_upd_Idle [OF ws, of C] p inv
  show ?thesis by (auto simp: STF_Inv_def)
qed

lemma STF_measure_Next:
  assumes fin: "finite (ControlFlow C)" and inv: "STF_Inv C s" and nxt: "STF_Next C s s'"
  shows "STF_measure C s' < STF_measure C s"
  using nxt
proof (cases rule: STF_Next_cases)
  case (exec w t tid)
  then have ws: "workerStates s' = (workerStates s)(w := Some (t, tid))"
    and p: "pendingTasks s' = pendingTasks s - {(t, tid)}"
    by (simp_all add: STF_ExecuteTask_def)
  from inv fin have fp: "finite (pendingTasks s)"
    by (auto simp: STF_Inv_def intro: finite_subset)
  from inv have fa: "finite (activeWorkers C s)" by (simp add: STF_Inv_def)
  from fp exec(2) have c1: "card (pendingTasks s') = card (pendingTasks s) - 1"
    and c0: "card (pendingTasks s) > 0"
    by (auto simp: p card_gt_0_iff)
  from fa have "card (activeWorkers C s') \<le> Suc (card (activeWorkers C s))"
    by (simp add: activeWorkers_upd_Some [OF exec(1) ws] card_insert_if)
  with c1 c0 show ?thesis by (simp add: STF_measure_def)
next
  case (finish w)
  then have ws: "workerStates s' = (workerStates s)(w := Idle)"
    and p: "pendingTasks s' = pendingTasks s"
    and a: "workerStates s w \<noteq> Idle"
    by (auto simp: STF_TerminateTask_def)
  from inv have fa: "finite (activeWorkers C s)" by (simp add: STF_Inv_def)
  from a finish(1) have "w \<in> activeWorkers C s" by (simp add: activeWorkers_def)
  with fa have "card (activeWorkers C s - {w}) < card (activeWorkers C s)"
    by (intro card_Diff1_less)
  then show ?thesis
    by (simp add: STF_measure_def p activeWorkers_upd_Idle [OF ws, of C])
qed

lemma STF_enabled:
  assumes fin: "finite (ControlFlow C)"
    and dom: "ControlFlow C \<subseteq> dom (Tasks C) \<times> UNIV"
    and wk: "Workers C \<noteq> {}"
    and inv: "STF_Inv C s"
    and nt: "\<not> Terminated C s"
  shows "ENABLED (angle (STF_Next C)) s"
proof (cases "activeTasks C s = {}")
  case False
  then obtain x w where w: "w \<in> Workers C" and x: "workerStates s w = Some x"
    unfolding activeTasks_iff set_eq_iff by auto
  then have "x \<in> activeTasks C s" unfolding activeTasks_iff by blast
  with inv dom have xd: "x \<in> dom (Tasks C) \<times> UNIV" by (auto simp: STF_Inv_def)
  define s' where "s' = s\<lparr>workerStates := (workerStates s)(w := Idle)\<rparr>"
  have "STF_TerminateTask C w s s'"
    using x xd by (simp add: STF_TerminateTask_def s'_def)
  with w have "STF_Next C s s'" unfolding STF_Next_def by blast
  moreover have "workerStates s' w \<noteq> workerStates s w"
    using x by (simp add: s'_def)
  then have "s' \<noteq> s" by auto
  ultimately show ?thesis unfolding ENABLED_def angle_def by blast
next
  case True
  with nt have pne: "pendingTasks s \<noteq> {}" by (simp add: Terminated_def)
  from inv fin have fp: "finite (pendingTasks s)"
    by (auto simp: STF_Inv_def intro: finite_subset)
  from min_tid_exists [OF fp pne] obtain x where xp: "x \<in> pendingTasks s"
    and xmin: "\<forall>y \<in> pendingTasks s. snd x \<le> snd y" by blast
  obtain t tid where xeq: "x = (t, tid)" by (cases x)
  from wk obtain w where w: "w \<in> Workers C" by blast
  have idle: "workerStates s w = Idle"
  proof (rule ccontr)
    assume "workerStates s w \<noteq> Idle"
    then obtain y where "workerStates s w = Some y" by auto
    with w have "y \<in> activeTasks C s" unfolding activeTasks_iff by blast
    with True show False by simp
  qed
  have rr: "STF_ReadReady C s d tid" for d
    using xmin True by (auto simp: STF_ReadReady_def xeq)
  have wr: "STF_WriteReady C s d tid" for d
    using xmin True by (auto simp: STF_WriteReady_def xeq)
  have ready: "STF_TaskReady C s t tid"
    unfolding STF_TaskReady_def
  proof
    fix d
    show "Tasks_at C t d = NoneDep \<or> Tasks_at C t d = R \<and> STF_ReadReady C s d tid \<or>
          Tasks_at C t d = W \<and> STF_WriteReady C s d tid"
      using rr wr by (cases "Tasks_at C t d") simp_all
  qed
  define s' where
    "s' = s\<lparr>workerStates := (workerStates s)(w := Some (t, tid)),
             pendingTasks := pendingTasks s - {(t, tid)}\<rparr>"
  have "STF_ExecuteTask C w t tid s s'"
    using ready idle by (simp add: STF_ExecuteTask_def s'_def)
  with w xp have "STF_Next C s s'" unfolding STF_Next_def xeq by blast
  moreover have "workerStates s' w \<noteq> workerStates s w"
    using idle by (simp add: s'_def)
  then have "s' \<noteq> s" by auto
  ultimately show ?thesis unfolding ENABLED_def angle_def by blast
qed

lemma Terminated_Inv_empty_CF:
  assumes "ControlFlow C = {}" "STF_Inv C s"
  shows "Terminated C s"
  using assms by (auto simp: STF_Inv_def Terminated_def)

lemma STF_behavior_Inv:
  assumes "STF_Init C (\<sigma> 0)" "\<forall>n. square (STF_Next C) (\<sigma> n) (\<sigma> (Suc n))"
  shows "STF_Inv C (\<sigma> n)"
proof (induction n)
  case 0
  from assms(1) show ?case by (rule STF_Inv_Init)
next
  case (Suc n)
  from assms(2) have "STF_Next C (\<sigma> n) (\<sigma> (Suc n)) \<or> \<sigma> (Suc n) = \<sigma> n"
    by (simp add: square_def)
  with Suc show ?case by (auto intro: STF_Inv_Next)
qed

lemma STF_measure_mono:
  assumes fin: "finite (ControlFlow C)"
    and init: "STF_Init C (\<sigma> 0)" and sq: "\<forall>n. square (STF_Next C) (\<sigma> n) (\<sigma> (Suc n))"
  shows "STF_measure C (\<sigma> (n + k)) \<le> STF_measure C (\<sigma> n)"
proof (induction k)
  case 0
  show ?case by simp
next
  case (Suc k)
  from sq have "STF_Next C (\<sigma> (n + k)) (\<sigma> (Suc (n + k))) \<or> \<sigma> (Suc (n + k)) = \<sigma> (n + k)"
    by (simp add: square_def)
  then have "STF_measure C (\<sigma> (Suc (n + k))) \<le> STF_measure C (\<sigma> (n + k))"
  proof
    assume "STF_Next C (\<sigma> (n + k)) (\<sigma> (Suc (n + k)))"
    from STF_measure_Next [OF fin STF_behavior_Inv [OF init sq] this]
    show ?thesis by simp
  next
    assume "\<sigma> (Suc (n + k)) = \<sigma> (n + k)"
    then show ?thesis by simp
  qed
  with Suc show ?case by simp
qed

lemma STF_terminates:
  assumes fin: "finite (ControlFlow C)"
    and dom: "ControlFlow C \<subseteq> dom (Tasks C) \<times> UNIV"
    and wk: "Workers C \<noteq> {} \<or> ControlFlow C = {}"
    and spec: "STF_Spec C \<sigma>"
  shows "\<exists>n. Terminated C (\<sigma> n)"
proof (cases "ControlFlow C = {}")
  case True
  from spec have "STF_Inv C (\<sigma> 0)" by (simp add: STF_Spec_def STF_Inv_Init)
  with True have "Terminated C (\<sigma> 0)" by (rule Terminated_Inv_empty_CF)
  then show ?thesis ..
next
  case False
  with wk have wk': "Workers C \<noteq> {}" by simp
  from spec have init: "STF_Init C (\<sigma> 0)"
    and sq: "\<forall>n. square (STF_Next C) (\<sigma> n) (\<sigma> (Suc n))"
    and wf: "WF (STF_Next C) \<sigma>"
    by (simp_all add: STF_Spec_def)
  note inv = STF_behavior_Inv [OF init sq]
  show ?thesis
  proof (rule ccontr)
    assume "\<nexists>n. Terminated C (\<sigma> n)"
    then have nt: "\<not> Terminated C (\<sigma> n)" for n by blast
    have en: "ENABLED (angle (STF_Next C)) (\<sigma> m)" for m
      by (rule STF_enabled [OF fin dom wk' inv nt])
    with wf have steps: "\<forall>n. \<exists>m\<ge>n. angle (STF_Next C) (\<sigma> m) (\<sigma> (Suc m))"
      unfolding WF_def by blast
    have "\<exists>m. STF_measure C (\<sigma> m) < STF_measure C (\<sigma> n)" for n
    proof -
      from steps obtain m where m: "m \<ge> n" and st: "STF_Next C (\<sigma> m) (\<sigma> (Suc m))"
        unfolding angle_def by blast
      from STF_measure_Next [OF fin inv st]
      have "STF_measure C (\<sigma> (Suc m)) < STF_measure C (\<sigma> m)" .
      moreover from STF_measure_mono [OF fin init sq, of n "m - n"] m
      have "STF_measure C (\<sigma> m) \<le> STF_measure C (\<sigma> n)" by simp
      ultimately show ?thesis by (intro exI [of _ "Suc m"]) simp
    qed
    then have desc: "\<forall>n. \<exists>m. STF_measure C (\<sigma> m) < STF_measure C (\<sigma> n)" by blast
    have "False" if "STF_measure C (\<sigma> n) = k" for n k
      using that
    proof (induction k arbitrary: n rule: less_induct)
      case (less k)
      from desc obtain m where "STF_measure C (\<sigma> m) < STF_measure C (\<sigma> n)" by blast
      with less show ?case by blast
    qed
    then show False by blast
  qed
qed

subsection \<open>Invariants of \<open>RunInOrder\<close>\<close>

lemma Mapped_iff: "x \<in> Mapped C w \<longleftrightarrow> x \<in> ControlFlow C \<and> Mapping C (snd x) = w"
  by (cases x) (simp add: Mapped_def)

lemma RIO_Next_cases:
  assumes "RIO_Next C s s'"
  obtains (execute) w t tid where "w \<in> Workers C" "workerStates s w = Idle"
      "(t, tid) \<in> workerPendingTasks s w"
      "\<forall>y \<in> workerPendingTasks s w. tid \<le> snd y"
      "RIO_TaskReady C s t tid"
      "workerPendingTasks s' = (workerPendingTasks s)(w := workerPendingTasks s w - {(t, tid)})"
      "workerStates s' = (workerStates s)(w := Some (t, tid))"
      "terminatedTasks s' = terminatedTasks s"
  | (finish) w x where "w \<in> Workers C" "workerStates s w = Some x" "fst x \<in> dom (Tasks C)"
      "workerStates s' = (workerStates s)(w := Idle)"
      "terminatedTasks s' = insert x (terminatedTasks s)"
      "workerPendingTasks s' = workerPendingTasks s"
proof -
  from assms obtain w where w: "w \<in> Workers C"
    and d: "RIO_ExecuteTask C w s s' \<or> RIO_TerminateTask C w s s'"
    unfolding RIO_Next_def by blast
  from d show thesis
  proof
    assume "RIO_ExecuteTask C w s s'"
    then obtain t tid where "workerStates s w = Idle"
      "(t, tid) \<in> workerPendingTasks s w"
      "\<forall>(other_t, other_tid) \<in> workerPendingTasks s w. tid \<le> other_tid"
      "RIO_TaskReady C s t tid"
      "workerPendingTasks s' = (workerPendingTasks s)(w := workerPendingTasks s w - {(t, tid)})"
      "workerStates s' = (workerStates s)(w := Some (t, tid))"
      "terminatedTasks s' = terminatedTasks s"
      unfolding RIO_ExecuteTask_def by blast
    moreover from this(3) have "\<forall>y \<in> workerPendingTasks s w. tid \<le> snd y"
      by (auto simp: split_beta)
    ultimately show thesis using w by (intro execute [of w t tid])
  next
    assume t: "RIO_TerminateTask C w s s'"
    then obtain x where x: "workerStates s w = Some x" "x \<in> dom (Tasks C) \<times> UNIV"
      unfolding RIO_TerminateTask_def by auto
    from x(2) have "fst x \<in> dom (Tasks C)" by auto
    moreover from t x(1) have "workerStates s' = (workerStates s)(w := Idle)"
      "terminatedTasks s' = insert x (terminatedTasks s)"
      "workerPendingTasks s' = workerPendingTasks s"
      unfolding RIO_TerminateTask_def by simp_all
    ultimately show thesis using w x(1) by (intro finish [of w x])
  qed
qed

lemma RIO_Inv_Init: "RIO_Init C s \<Longrightarrow> RIO_Inv C s"
  by (simp add: RIO_Init_def RIO_Inv_def Mapped_def)

lemma RIO_Cover_Init: "maps_to_workers C \<Longrightarrow> RIO_Init C s \<Longrightarrow> RIO_Cover C s"
  by (auto simp: RIO_Init_def RIO_Cover_def maps_to_workers_def)

lemma RIO_Inv_Next:
  assumes inv: "RIO_Inv C s" and nxt: "RIO_Next C s s'"
  shows "RIO_Inv C s'"
  using nxt
proof (cases rule: RIO_Next_cases)
  case (execute w t tid)
  from inv have i1: "\<And>v. v \<in> Workers C \<Longrightarrow> workerPendingTasks s v \<subseteq> Mapped C v"
    and i2: "\<And>v x. v \<in> Workers C \<Longrightarrow> workerStates s v = Some x \<Longrightarrow>
          x \<in> Mapped C v \<and> x \<notin> workerPendingTasks s v \<and> x \<notin> terminatedTasks s"
    and i3: "terminatedTasks s \<subseteq> ControlFlow C"
    and i4: "\<And>v. v \<in> Workers C \<Longrightarrow> workerPendingTasks s v \<inter> terminatedTasks s = {}"
    unfolding RIO_Inv_def by blast+
  have p: "workerPendingTasks s' v = (if v = w then workerPendingTasks s w - {(t, tid)}
      else workerPendingTasks s v)" for v
    by (simp add: execute(6))
  have a: "workerStates s' v = (if v = w then Some (t, tid) else workerStates s v)" for v
    by (simp add: execute(7))
  have "workerPendingTasks s' v \<subseteq> Mapped C v" if "v \<in> Workers C" for v
    using i1 [OF that] by (auto simp: p)
  moreover have "x \<in> Mapped C v \<and> x \<notin> workerPendingTasks s' v \<and> x \<notin> terminatedTasks s'"
    if v: "v \<in> Workers C" and x: "workerStates s' v = Some x" for v x
  proof (cases "v = w")
    case True
    with x have "x = (t, tid)" by (simp add: a)
    with True execute(3) i1 [OF v] i4 [OF v] show ?thesis
      by (auto simp: p execute(8))
  next
    case False
    with x have "workerStates s v = Some x" by (simp add: a)
    from i2 [OF v this] False show ?thesis by (simp add: p execute(8))
  qed
  moreover have "terminatedTasks s' \<subseteq> ControlFlow C"
    using i3 by (simp add: execute(8))
  moreover have "workerPendingTasks s' v \<inter> terminatedTasks s' = {}" if "v \<in> Workers C" for v
    using i4 [OF that] by (auto simp: p execute(8))
  ultimately show ?thesis unfolding RIO_Inv_def by blast
next
  case (finish w x)
  from inv have i1: "\<And>v. v \<in> Workers C \<Longrightarrow> workerPendingTasks s v \<subseteq> Mapped C v"
    and i2: "\<And>v x. v \<in> Workers C \<Longrightarrow> workerStates s v = Some x \<Longrightarrow>
          x \<in> Mapped C v \<and> x \<notin> workerPendingTasks s v \<and> x \<notin> terminatedTasks s"
    and i3: "terminatedTasks s \<subseteq> ControlFlow C"
    and i4: "\<And>v. v \<in> Workers C \<Longrightarrow> workerPendingTasks s v \<inter> terminatedTasks s = {}"
    unfolding RIO_Inv_def by blast+
  note xw = i2 [OF finish(1) finish(2)]
  have a: "workerStates s' v = (if v = w then Idle else workerStates s v)" for v
    by (simp add: finish(4))
  have "workerPendingTasks s' v \<subseteq> Mapped C v" if "v \<in> Workers C" for v
    using i1 [OF that] by (simp add: finish(6))
  moreover have "y \<in> Mapped C v \<and> y \<notin> workerPendingTasks s' v \<and> y \<notin> terminatedTasks s'"
    if v: "v \<in> Workers C" and y: "workerStates s' v = Some y" for v y
  proof -
    from y have vw: "v \<noteq> w" and sy: "workerStates s v = Some y"
      by (auto simp: a split: if_splits)
    note yv = i2 [OF v sy]
    from yv xw vw have "y \<noteq> x" by (auto simp: Mapped_iff)
    with yv show ?thesis by (simp add: finish(5) finish(6))
  qed
  moreover have "terminatedTasks s' \<subseteq> ControlFlow C"
    using i3 xw by (simp add: finish(5) Mapped_iff)
  moreover have "workerPendingTasks s' v \<inter> terminatedTasks s' = {}" if v: "v \<in> Workers C" for v
  proof -
    have "x \<notin> workerPendingTasks s v"
    proof
      assume "x \<in> workerPendingTasks s v"
      with i1 [OF v] have "x \<in> Mapped C v" by blast
      with xw have "v = w" by (simp add: Mapped_iff)
      with xw \<open>x \<in> workerPendingTasks s v\<close> show False by simp
    qed
    with i4 [OF v] show ?thesis by (simp add: finish(5) finish(6))
  qed
  ultimately show ?thesis unfolding RIO_Inv_def by blast
qed

lemma RIO_Cover_Next:
  assumes cov: "RIO_Cover C s" and nxt: "RIO_Next C s s'"
  shows "RIO_Cover C s'"
  using nxt
proof (cases rule: RIO_Next_cases)
  case (execute w t tid)
  have "y \<in> workerPendingTasks s' (Mapping C (snd y)) \<or>
        workerStates s' (Mapping C (snd y)) = Some y \<or> y \<in> terminatedTasks s'"
    if "y \<in> ControlFlow C" for y
    using cov that execute(2) by (auto simp: RIO_Cover_def execute(6,7,8))
  then show ?thesis unfolding RIO_Cover_def by blast
next
  case (finish w x)
  have "y \<in> workerPendingTasks s' (Mapping C (snd y)) \<or>
        workerStates s' (Mapping C (snd y)) = Some y \<or> y \<in> terminatedTasks s'"
    if "y \<in> ControlFlow C" for y
    using cov that finish(2) by (auto simp: RIO_Cover_def finish(4,5,6))
  then show ?thesis unfolding RIO_Cover_def by blast
qed

lemma RIO_reachable_Inv: "RIO_reachable C s \<Longrightarrow> RIO_Inv C s"
  by (induction rule: RIO_reachable.induct) (auto intro: RIO_Inv_Init RIO_Inv_Next)

lemma RIO_reachable_Cover:
  assumes "maps_to_workers C"
  shows "RIO_reachable C s \<Longrightarrow> RIO_Cover C s"
  by (induction rule: RIO_reachable.induct) (auto intro: RIO_Cover_Init [OF assms] RIO_Cover_Next)

subsection \<open>Step refinement\<close>

lemma activeTasks_STF [simp]: "activeTasks C (STF C s) = activeTasks C s"
  by (simp add: activeTasks_def activeWorkers_def STF_def)

lemma pendingTasks_STF [simp]: "pendingTasks (STF C s) = RIO_pendingTasks C s"
  by (simp add: STF_def)

lemma workerStates_STF [simp]: "workerStates (STF C s) = workerStates s"
  by (simp add: STF_def)

lemma RIO_pendingTasks_iff:
  "x \<in> RIO_pendingTasks C s \<longleftrightarrow> (\<exists>w \<in> Workers C. x \<in> workerPendingTasks s w)"
  by (simp add: RIO_pendingTasks_def)

lemma RIO_Inv_pending_worker:
  assumes "RIO_Inv C s" "w \<in> Workers C" "x \<in> workerPendingTasks s w"
  shows "x \<in> ControlFlow C" "Mapping C (snd x) = w" "x \<notin> terminatedTasks s"
proof -
  from assms have "x \<in> Mapped C w" unfolding RIO_Inv_def by blast
  then show "x \<in> ControlFlow C" "Mapping C (snd x) = w" by (simp_all add: Mapped_iff)
  from assms show "x \<notin> terminatedTasks s" unfolding RIO_Inv_def by blast
qed

lemma RIO_Inv_active_worker:
  assumes "RIO_Inv C s" "w \<in> Workers C" "workerStates s w = Some x"
  shows "x \<in> ControlFlow C" "Mapping C (snd x) = w" "x \<notin> terminatedTasks s"
    "x \<notin> workerPendingTasks s w"
proof -
  from assms have m: "x \<in> Mapped C w \<and> x \<notin> workerPendingTasks s w \<and> x \<notin> terminatedTasks s"
    unfolding RIO_Inv_def by blast
  then show "x \<in> ControlFlow C" "Mapping C (snd x) = w" by (simp_all add: Mapped_iff)
  from m show "x \<notin> terminatedTasks s" "x \<notin> workerPendingTasks s w" by simp_all
qed

lemma RIO_Inv_pending:
  assumes "RIO_Inv C s" "x \<in> RIO_pendingTasks C s"
  shows "x \<in> ControlFlow C" "x \<notin> terminatedTasks s" "x \<notin> activeTasks C s"
    "x \<in> workerPendingTasks s (Mapping C (snd x))" "Mapping C (snd x) \<in> Workers C"
proof -
  from assms(2) obtain w where w: "w \<in> Workers C" "x \<in> workerPendingTasks s w"
    unfolding RIO_pendingTasks_iff by blast
  note f = RIO_Inv_pending_worker [OF assms(1) w]
  from f show "x \<in> ControlFlow C" "x \<notin> terminatedTasks s" by simp_all
  from f(2) w show "x \<in> workerPendingTasks s (Mapping C (snd x))" "Mapping C (snd x) \<in> Workers C"
    by simp_all
  show "x \<notin> activeTasks C s"
  proof
    assume "x \<in> activeTasks C s"
    then obtain v where v: "v \<in> Workers C" "workerStates s v = Some x"
      unfolding activeTasks_iff by blast
    note g = RIO_Inv_active_worker [OF assms(1) v]
    from g(2) f(2) have "v = w" by simp
    with g(4) w(2) show False by simp
  qed
qed

lemma RIO_Inv_active:
  assumes "RIO_Inv C s" "x \<in> activeTasks C s"
  shows "x \<in> ControlFlow C" "x \<notin> terminatedTasks s"
    "workerStates s (Mapping C (snd x)) = Some x" "Mapping C (snd x) \<in> Workers C"
proof -
  from assms(2) obtain v where v: "v \<in> Workers C" "workerStates s v = Some x"
    unfolding activeTasks_iff by blast
  note g = RIO_Inv_active_worker [OF assms(1) v]
  from g show "x \<in> ControlFlow C" "x \<notin> terminatedTasks s" by simp_all
  from g(2) v show "workerStates s (Mapping C (snd x)) = Some x" "Mapping C (snd x) \<in> Workers C"
    by simp_all
qed

lemma RIO_partition_union:
  assumes maps: "maps_to_workers C" and inv: "RIO_Inv C s" and cov: "RIO_Cover C s"
  shows "RIO_pendingTasks C s \<union> activeTasks C s \<union> terminatedTasks s = ControlFlow C"
proof (rule set_eqI)
  fix x
  show "x \<in> RIO_pendingTasks C s \<union> activeTasks C s \<union> terminatedTasks s \<longleftrightarrow> x \<in> ControlFlow C"
  proof
    assume "x \<in> RIO_pendingTasks C s \<union> activeTasks C s \<union> terminatedTasks s"
    then consider "x \<in> RIO_pendingTasks C s" | "x \<in> activeTasks C s" | "x \<in> terminatedTasks s"
      by blast
    then show "x \<in> ControlFlow C"
    proof cases
      case 1
      with inv show ?thesis by (rule RIO_Inv_pending)
    next
      case 2
      with inv show ?thesis by (rule RIO_Inv_active)
    next
      case 3
      with inv show ?thesis unfolding RIO_Inv_def by blast
    qed
  next
    assume x: "x \<in> ControlFlow C"
    with maps have w: "Mapping C (snd x) \<in> Workers C"
      unfolding maps_to_workers_def by (cases x) auto
    from cov x consider "x \<in> workerPendingTasks s (Mapping C (snd x))"
      | "workerStates s (Mapping C (snd x)) = Some x" | "x \<in> terminatedTasks s"
      unfolding RIO_Cover_def by blast
    then show "x \<in> RIO_pendingTasks C s \<union> activeTasks C s \<union> terminatedTasks s"
    proof cases
      case 1
      with w have "x \<in> RIO_pendingTasks C s" unfolding RIO_pendingTasks_iff by blast
      then show ?thesis by simp
    next
      case 2
      with w have "x \<in> activeTasks C s" unfolding activeTasks_iff by blast
      then show ?thesis by simp
    next
      case 3
      then show ?thesis by simp
    qed
  qed
qed

lemma RIO_TaskReady_imp_STF:
  assumes inv: "RIO_Inv C s" and r: "RIO_TaskReady C s t tid"
  shows "STF_TaskReady C (STF C s) t tid"
proof -
  have live: "y \<in> ControlFlow C \<and> y \<notin> terminatedTasks s"
    if "y \<in> pendingTasks (STF C s) \<union> activeTasks C (STF C s)" for y
    using that RIO_Inv_pending [OF inv, of y] RIO_Inv_active [OF inv, of y]
    by auto
  have rr: "STF_ReadReady C (STF C s) d tid" if "RIO_ReadReady C s d tid" for d
    unfolding STF_ReadReady_def
  proof (intro ballI)
    fix y
    assume y: "y \<in> pendingTasks (STF C s) \<union> activeTasks C (STF C s)"
    obtain t' i' where yeq: "y = (t', i')" by (cases y)
    from live [OF y] that
    have "Tasks_at C t' d = NoneDep \<or> Tasks_at C t' d = R \<or> tid \<le> i'"
      unfolding RIO_ReadReady_def yeq by auto
    then show "case y of (t, otherTid) \<Rightarrow>
        Tasks_at C t d = NoneDep \<or> Tasks_at C t d = R \<or> tid \<le> otherTid"
      unfolding yeq by simp
  qed
  have wr: "STF_WriteReady C (STF C s) d tid" if "RIO_WriteReady C s d tid" for d
    unfolding STF_WriteReady_def
  proof (intro ballI)
    fix y
    assume y: "y \<in> pendingTasks (STF C s) \<union> activeTasks C (STF C s)"
    obtain t' i' where yeq: "y = (t', i')" by (cases y)
    from live [OF y] that
    have "Tasks_at C t' d = NoneDep \<or> tid \<le> i'"
      unfolding RIO_WriteReady_def yeq by auto
    then show "case y of (t, otherTid) \<Rightarrow> Tasks_at C t d = NoneDep \<or> tid \<le> otherTid"
      unfolding yeq by simp
  qed
  from r rr wr show ?thesis
    unfolding RIO_TaskReady_def STF_TaskReady_def by blast
qed

lemma STF_TaskReady_imp_RIO:
  assumes maps: "maps_to_workers C" and inv: "RIO_Inv C s" and cov: "RIO_Cover C s"
    and r: "STF_TaskReady C (STF C s) t tid"
  shows "RIO_TaskReady C s t tid"
proof -
  have live: "y \<in> pendingTasks (STF C s) \<union> activeTasks C (STF C s) \<or> y \<in> terminatedTasks s"
    if "y \<in> ControlFlow C" for y
    using that RIO_partition_union [OF maps inv cov] by auto
  have rr: "RIO_ReadReady C s d tid" if "STF_ReadReady C (STF C s) d tid" for d
    unfolding RIO_ReadReady_def
  proof (intro ballI)
    fix y
    assume y: "y \<in> ControlFlow C"
    obtain t' i' where yeq: "y = (t', i')" by (cases y)
    from live [OF y] that
    have "Tasks_at C t' d = NoneDep \<or> Tasks_at C t' d = R \<or> tid \<le> i' \<or>
          (t', i') \<in> terminatedTasks s"
      unfolding STF_ReadReady_def yeq by auto
    then show "case y of (t, other_tid) \<Rightarrow>
        Tasks_at C t d = NoneDep \<or> Tasks_at C t d = R \<or> tid \<le> other_tid \<or>
        (t, other_tid) \<in> terminatedTasks s"
      unfolding yeq by simp
  qed
  have wr: "RIO_WriteReady C s d tid" if "STF_WriteReady C (STF C s) d tid" for d
    unfolding RIO_WriteReady_def
  proof (intro ballI)
    fix y
    assume y: "y \<in> ControlFlow C"
    obtain t' i' where yeq: "y = (t', i')" by (cases y)
    from live [OF y] that
    have "Tasks_at C t' d = NoneDep \<or> tid \<le> i' \<or> (t', i') \<in> terminatedTasks s"
      unfolding STF_WriteReady_def yeq by auto
    then show "case y of (t, other_tid) \<Rightarrow>
        Tasks_at C t d = NoneDep \<or> tid \<le> other_tid \<or> (t, other_tid) \<in> terminatedTasks s"
      unfolding yeq by simp
  qed
  from r rr wr show ?thesis
    unfolding RIO_TaskReady_def STF_TaskReady_def by blast
qed

lemma RIO_Next_refines:
  assumes inv: "RIO_Inv C s" and nxt: "RIO_Next C s s'"
  shows "STF_Next C (STF C s) (STF C s')"
  using nxt
proof (cases rule: RIO_Next_cases)
  case (execute w t tid)
  have pend: "(t, tid) \<in> pendingTasks (STF C s)"
    using execute(1,3) by (auto simp: RIO_pendingTasks_iff)
  have "RIO_pendingTasks C s' = RIO_pendingTasks C s - {(t, tid)}"
  proof (rule set_eqI)
    fix y
    show "y \<in> RIO_pendingTasks C s' \<longleftrightarrow> y \<in> RIO_pendingTasks C s - {(t, tid)}"
    proof
      assume "y \<in> RIO_pendingTasks C s'"
      then obtain v where v: "v \<in> Workers C" "y \<in> workerPendingTasks s' v"
        unfolding RIO_pendingTasks_iff by blast
      then have "y \<in> workerPendingTasks s v \<and> (v = w \<longrightarrow> y \<noteq> (t, tid))"
        by (auto simp: execute(6) split: if_splits)
      moreover have "y \<noteq> (t, tid)" if "v \<noteq> w" "y \<in> workerPendingTasks s v"
        using RIO_Inv_pending_worker(2) [OF inv v(1) that(2)]
          RIO_Inv_pending_worker(2) [OF inv execute(1) execute(3)] that(1) by auto
      ultimately show "y \<in> RIO_pendingTasks C s - {(t, tid)}"
        using v(1) by (auto simp: RIO_pendingTasks_iff)
    next
      assume "y \<in> RIO_pendingTasks C s - {(t, tid)}"
      then obtain v where v: "v \<in> Workers C" "y \<in> workerPendingTasks s v" and ne: "y \<noteq> (t, tid)"
        by (auto simp: RIO_pendingTasks_iff)
      then have "y \<in> workerPendingTasks s' v" by (auto simp: execute(6))
      with v(1) show "y \<in> RIO_pendingTasks C s'" unfolding RIO_pendingTasks_iff by blast
    qed
  qed
  with execute(2,7) RIO_TaskReady_imp_STF [OF inv execute(5)]
  have "STF_ExecuteTask C w t tid (STF C s) (STF C s')"
    by (simp add: STF_ExecuteTask_def)
  with execute(1) pend show ?thesis unfolding STF_Next_def by blast
next
  case (finish w x)
  have "workerStates (STF C s) w \<in> Some ` (dom (Tasks C) \<times> UNIV)"
    using finish(2,3) by (cases x) auto
  then have "STF_TerminateTask C w (STF C s) (STF C s')"
    by (simp add: STF_TerminateTask_def finish(4) RIO_pendingTasks_def finish(6))
  with finish(1) show ?thesis unfolding STF_Next_def by blast
qed

lemma RIO_Next_changes:
  assumes "RIO_Next C s s'"
  shows "STF C s' \<noteq> STF C s"
proof -
  have "\<exists>w. workerStates s' w \<noteq> workerStates s w"
    using assms
  proof (cases rule: RIO_Next_cases)
    case (execute w t tid)
    then have "workerStates s' w \<noteq> workerStates s w" by simp
    then show ?thesis ..
  next
    case (finish w x)
    then have "workerStates s' w \<noteq> workerStates s w" by simp
    then show ?thesis ..
  qed
  then have ne: "workerStates s' \<noteq> workerStates s" by auto
  show ?thesis
  proof
    assume "STF C s' = STF C s"
    then have "workerStates (STF C s') = workerStates (STF C s)" by (rule arg_cong)
    with ne show False by simp
  qed
qed

lemma RIO_Init_refines:
  assumes "maps_to_workers C" "RIO_Init C s"
  shows "STF_Init C (STF C s)"
proof -
  have "RIO_pendingTasks C s = ControlFlow C"
    using assms by (auto simp: RIO_pendingTasks_def RIO_Init_def maps_to_workers_def)
  with assms(2) show ?thesis by (simp add: STF_Init_def RIO_Init_def)
qed

subsection \<open>Enabledness, refinement and termination of \<open>RunInOrder\<close>\<close>

lemma STF_min_ready:
  assumes "activeTasks C s = {}" "\<forall>y \<in> pendingTasks s. tid \<le> snd y"
  shows "STF_TaskReady C s t tid"
proof -
  have rr: "STF_ReadReady C s d tid" for d
    using assms by (auto simp: STF_ReadReady_def)
  have wr: "STF_WriteReady C s d tid" for d
    using assms by (auto simp: STF_WriteReady_def)
  show ?thesis
    unfolding STF_TaskReady_def
  proof
    fix d
    show "Tasks_at C t d = NoneDep \<or> Tasks_at C t d = R \<and> STF_ReadReady C s d tid \<or>
          Tasks_at C t d = W \<and> STF_WriteReady C s d tid"
      using rr wr by (cases "Tasks_at C t d") simp_all
  qed
qed

lemma STF_enabled_not_Terminated:
  assumes "ENABLED (angle (STF_Next C)) s"
  shows "\<not> Terminated C s"
proof -
  from assms obtain s' where "STF_Next C s s'"
    unfolding ENABLED_def angle_def by blast
  then show ?thesis
  proof (cases rule: STF_Next_cases)
    case (exec w t tid)
    then show ?thesis by (auto simp: Terminated_def)
  next
    case (finish w)
    then obtain x where "workerStates s w = Some x"
      by (auto simp: STF_TerminateTask_def)
    with finish(1) have "x \<in> activeTasks C s" unfolding activeTasks_iff by blast
    then show ?thesis by (auto simp: Terminated_def)
  qed
qed

lemma RIO_enabled:
  assumes bnd: "tids_bounded_below C"
    and dom: "ControlFlow C \<subseteq> dom (Tasks C) \<times> UNIV"
    and maps: "maps_to_workers C"
    and inv: "RIO_Inv C s" and cov: "RIO_Cover C s"
    and nt: "\<not> Terminated C (STF C s)"
  shows "ENABLED (angle (RIO_Next C)) s"
proof (cases "activeTasks C s = {}")
  case False
  then obtain x w where w: "w \<in> Workers C" and x: "workerStates s w = Some x"
    unfolding activeTasks_iff set_eq_iff by auto
  from RIO_Inv_active_worker(1) [OF inv w x] dom have xd: "x \<in> dom (Tasks C) \<times> UNIV"
    by blast
  define s' where "s' = s\<lparr>workerStates := (workerStates s)(w := Idle),
      terminatedTasks := terminatedTasks s \<union> {the (workerStates s w)}\<rparr>"
  have "RIO_TerminateTask C w s s'"
    using x xd by (simp add: RIO_TerminateTask_def s'_def)
  with w have "RIO_Next C s s'" unfolding RIO_Next_def by blast
  moreover have "workerStates s' w \<noteq> workerStates s w"
    using x by (simp add: s'_def)
  then have "s' \<noteq> s" by auto
  ultimately show ?thesis unfolding ENABLED_def angle_def by blast
next
  case True
  with nt have pne: "RIO_pendingTasks C s \<noteq> {}" by (simp add: Terminated_def)
  from bnd obtain b where "\<forall>x \<in> ControlFlow C. b \<le> snd x"
    unfolding tids_bounded_below_def by blast
  with RIO_Inv_pending(1) [OF inv] have "\<forall>x \<in> RIO_pendingTasks C s. b \<le> snd x"
    by blast
  from min_tid_exists_bounded [OF pne this] obtain x where xp: "x \<in> RIO_pendingTasks C s"
    and xmin: "\<forall>y \<in> RIO_pendingTasks C s. snd x \<le> snd y" by blast
  obtain t tid where xeq: "x = (t, tid)" by (cases x)
  define w where "w = Mapping C tid"
  from RIO_Inv_pending(4,5) [OF inv xp] have xw: "(t, tid) \<in> workerPendingTasks s w"
    and w: "w \<in> Workers C"
    by (simp_all add: xeq w_def)
  have idle: "workerStates s w = Idle"
  proof (rule ccontr)
    assume "workerStates s w \<noteq> Idle"
    then obtain y where "workerStates s w = Some y" by auto
    with w have "y \<in> activeTasks C s" unfolding activeTasks_iff by blast
    with True show False by simp
  qed
  have wmin: "\<forall>(other_t, other_tid) \<in> workerPendingTasks s w. tid \<le> other_tid"
  proof (intro ballI)
    fix y
    assume "y \<in> workerPendingTasks s w"
    with w have "y \<in> RIO_pendingTasks C s" unfolding RIO_pendingTasks_iff by blast
    with xmin have "tid \<le> snd y" by (simp add: xeq)
    then show "case y of (other_t, other_tid) \<Rightarrow> tid \<le> other_tid"
      by (cases y) simp
  qed
  have "STF_TaskReady C (STF C s) t tid"
    using True xmin by (intro STF_min_ready) (simp_all add: xeq)
  then have ready: "RIO_TaskReady C s t tid"
    by (rule STF_TaskReady_imp_RIO [OF maps inv cov])
  define s' where
    "s' = s\<lparr>workerStates := (workerStates s)(w := Some (t, tid)),
            workerPendingTasks :=
              (workerPendingTasks s)(w := workerPendingTasks s w - {(t, tid)})\<rparr>"
  have "RIO_ExecuteTask C w s s'"
    unfolding RIO_ExecuteTask_def
  proof (intro conjI bexI [of _ "(t, tid)"])
    show "workerStates s w = Idle" by (rule idle)
    show "(t, tid) \<in> workerPendingTasks s w" by (rule xw)
    show "case (t, tid) of (t, tid) \<Rightarrow>
        (\<forall>(other_t, other_tid) \<in> workerPendingTasks s w. tid \<le> other_tid) \<and>
        RIO_TaskReady C s t tid \<and>
        workerPendingTasks s' =
          (workerPendingTasks s)(w := workerPendingTasks s w - {(t, tid)}) \<and>
        workerStates s' = (workerStates s)(w := Some (t, tid)) \<and>
        terminatedTasks s' = terminatedTasks s"
      using wmin ready by (simp add: s'_def)
  qed
  with w have "RIO_Next C s s'" unfolding RIO_Next_def by blast
  moreover have "workerStates s' w \<noteq> workerStates s w"
    using idle by (simp add: s'_def)
  then have "s' \<noteq> s" by auto
  ultimately show ?thesis unfolding ENABLED_def angle_def by blast
qed

lemma RIO_behavior_reachable:
  assumes "RIO_Init C (\<sigma> 0)" "\<forall>n. square (RIO_Next C) (\<sigma> n) (\<sigma> (Suc n))"
  shows "RIO_reachable C (\<sigma> n)"
proof (induction n)
  case 0
  from assms(1) show ?case by (rule RIO_reachable.init)
next
  case (Suc n)
  from assms(2) have "RIO_Next C (\<sigma> n) (\<sigma> (Suc n)) \<or> \<sigma> (Suc n) = \<sigma> n"
    by (simp add: square_def)
  with Suc show ?case by (auto intro: RIO_reachable.step)
qed

lemma RIO_implements_STF:
  assumes bnd: "tids_bounded_below C"
    and dom: "ControlFlow C \<subseteq> dom (Tasks C) \<times> UNIV"
    and maps: "maps_to_workers C"
    and spec: "RIO_Spec C \<sigma>"
  shows "STF_Spec C (\<lambda>n. STF C (\<sigma> n))"
proof -
  from spec have init: "RIO_Init C (\<sigma> 0)"
    and sq: "\<forall>n. square (RIO_Next C) (\<sigma> n) (\<sigma> (Suc n))"
    and wf: "WF (RIO_Next C) \<sigma>"
    by (simp_all add: RIO_Spec_def)
  note reach = RIO_behavior_reachable [OF init sq]
  note inv = RIO_reachable_Inv [OF reach]
  note cov = RIO_reachable_Cover [OF maps reach]
  have step: "angle (STF_Next C) (STF C (\<sigma> m)) (STF C (\<sigma> (Suc m)))"
    if "RIO_Next C (\<sigma> m) (\<sigma> (Suc m))" for m
    using RIO_Next_refines [OF inv that] RIO_Next_changes [OF that]
    by (simp add: angle_def)
  have "STF_Init C (STF C (\<sigma> 0))"
    using maps init by (rule RIO_Init_refines)
  moreover have "square (STF_Next C) (STF C (\<sigma> n)) (STF C (\<sigma> (Suc n)))" for n
  proof -
    from sq have "RIO_Next C (\<sigma> n) (\<sigma> (Suc n)) \<or> \<sigma> (Suc n) = \<sigma> n"
      by (simp add: square_def)
    then show ?thesis
    proof
      assume "RIO_Next C (\<sigma> n) (\<sigma> (Suc n))"
      from step [OF this] show ?thesis by (simp add: square_def angle_def)
    next
      assume "\<sigma> (Suc n) = \<sigma> n"
      then show ?thesis by (simp add: square_def)
    qed
  qed
  moreover have "WF (STF_Next C) (\<lambda>n. STF C (\<sigma> n))"
  proof -
    from wf consider
      (dis) "\<forall>n. \<exists>m\<ge>n. \<not> ENABLED (angle (RIO_Next C)) (\<sigma> m)"
      | (occ) "\<forall>n. \<exists>m\<ge>n. angle (RIO_Next C) (\<sigma> m) (\<sigma> (Suc m))"
      unfolding WF_def by blast
    then show ?thesis
    proof cases
      case dis
      have "\<exists>m\<ge>n. \<not> ENABLED (angle (STF_Next C)) (STF C (\<sigma> m))" for n
      proof -
        from dis obtain m where m: "m \<ge> n" "\<not> ENABLED (angle (RIO_Next C)) (\<sigma> m)" by blast
        from m(2) RIO_enabled [OF bnd dom maps inv cov, of m]
        have "Terminated C (STF C (\<sigma> m))" by blast
        with STF_enabled_not_Terminated [of C "STF C (\<sigma> m)"]
        have "\<not> ENABLED (angle (STF_Next C)) (STF C (\<sigma> m))" by blast
        with m(1) show ?thesis by blast
      qed
      then show ?thesis unfolding WF_def by blast
    next
      case occ
      have "\<exists>m\<ge>n. angle (STF_Next C) (STF C (\<sigma> m)) (STF C (\<sigma> (Suc m)))" for n
      proof -
        from occ obtain m where m: "m \<ge> n" "RIO_Next C (\<sigma> m) (\<sigma> (Suc m))"
          unfolding angle_def by blast
        from step [OF m(2)] m(1) show ?thesis by blast
      qed
      then show ?thesis unfolding WF_def by blast
    qed
  qed
  ultimately show ?thesis unfolding STF_Spec_def by simp
qed

lemma maps_to_workers_nonempty:
  assumes "maps_to_workers C"
  shows "Workers C \<noteq> {} \<or> ControlFlow C = {}"
  using assms unfolding maps_to_workers_def by fastforce

lemma RIO_terminates:
  assumes fin: "finite (ControlFlow C)"
    and dom: "ControlFlow C \<subseteq> dom (Tasks C) \<times> UNIV"
    and maps: "maps_to_workers C"
    and spec: "RIO_Spec C \<sigma>"
  shows "\<exists>n. Terminated C (STF C (\<sigma> n))"
  using STF_terminates [OF fin dom maps_to_workers_nonempty [OF maps]
      RIO_implements_STF [OF finite_tids_bounded_below [OF fin] dom maps spec]] .

subsection \<open>Readiness, the partition and what a step moves\<close>

lemma guard_drop:
  "(\<forall>h mode. h \<in> D \<and> T h = mode \<and> mode \<noteq> NoneDep \<longrightarrow>
       (mode = R \<longrightarrow> P h) \<and> (mode = W \<longrightarrow> Q h)) \<longleftrightarrow>
   (\<forall>d \<in> D. (T d = R \<longrightarrow> P d) \<and> (T d = W \<longrightarrow> Q d))"
  by auto

lemma spec_ready_alt:
  "spec_ready C U t tid \<longleftrightarrow>
     (\<forall>d \<in> Data C.
        (Tasks_at C t d = R \<longrightarrow>
           \<not> (\<exists>(t', tid') \<in> U. tid' < tid \<and> Tasks_at C t' d = W)) \<and>
        (Tasks_at C t d = W \<longrightarrow>
           \<not> (\<exists>(t', tid') \<in> U. tid' < tid \<and> Tasks_at C t' d \<noteq> NoneDep)))"
proof -
  have "spec_ready C U t tid \<longleftrightarrow>
     (\<forall>h mode. h \<in> Data C \<and> Tasks_at C t h = mode \<and> mode \<noteq> NoneDep \<longrightarrow>
        (mode = R \<longrightarrow>
           \<not> (\<exists>(t', tid') \<in> U. tid' < tid \<and> Tasks_at C t' h = W)) \<and>
        (mode = W \<longrightarrow>
           \<not> (\<exists>(t', tid') \<in> U. tid' < tid \<and> Tasks_at C t' h \<noteq> NoneDep)))"
    unfolding spec_ready_def access_list_def by (simp add: Ball_def)
  then show ?thesis unfolding guard_drop .
qed

lemma STF_TaskReady_spec:
  "STF_TaskReady C s t tid \<longleftrightarrow> spec_ready C (pendingTasks s \<union> activeTasks C s) t tid"
proof -
  let ?U = "pendingTasks s \<union> activeTasks C s"
  have r: "STF_ReadReady C s d tid \<longleftrightarrow>
      \<not> (\<exists>(t', tid') \<in> ?U. tid' < tid \<and> Tasks_at C t' d = W)" for d
  proof -
    have "(Tasks_at C t' d = NoneDep \<or> Tasks_at C t' d = R \<or> tid \<le> i') \<longleftrightarrow>
          \<not> (i' < tid \<and> Tasks_at C t' d = W)" for t' i'
      by (cases "Tasks_at C t' d") auto
    then show ?thesis unfolding STF_ReadReady_def by (simp add: split_beta)
  qed
  have w: "STF_WriteReady C s d tid \<longleftrightarrow>
      \<not> (\<exists>(t', tid') \<in> ?U. tid' < tid \<and> Tasks_at C t' d \<noteq> NoneDep)" for d
  proof -
    have "(Tasks_at C t' d = NoneDep \<or> tid \<le> i') \<longleftrightarrow>
          \<not> (i' < tid \<and> Tasks_at C t' d \<noteq> NoneDep)" for t' i'
      by auto
    then show ?thesis unfolding STF_WriteReady_def by (simp add: split_beta)
  qed
  have "(Tasks_at C t d = NoneDep \<or> Tasks_at C t d = R \<and> STF_ReadReady C s d tid \<or>
         Tasks_at C t d = W \<and> STF_WriteReady C s d tid) \<longleftrightarrow>
        (Tasks_at C t d = R \<longrightarrow> STF_ReadReady C s d tid) \<and>
        (Tasks_at C t d = W \<longrightarrow> STF_WriteReady C s d tid)" for d
    by (cases "Tasks_at C t d") auto
  then have "STF_TaskReady C s t tid \<longleftrightarrow>
     (\<forall>d \<in> Data C. (Tasks_at C t d = R \<longrightarrow> STF_ReadReady C s d tid) \<and>
        (Tasks_at C t d = W \<longrightarrow> STF_WriteReady C s d tid))"
    unfolding STF_TaskReady_def by simp
  also have "\<dots> \<longleftrightarrow> spec_ready C ?U t tid"
    unfolding spec_ready_alt r w ..
  finally show ?thesis .
qed

lemma RIO_TaskReady_iff_STF:
  assumes "maps_to_workers C" "RIO_reachable C s"
  shows "RIO_TaskReady C s t tid \<longleftrightarrow> STF_TaskReady C (STF C s) t tid"
  using RIO_TaskReady_imp_STF [OF RIO_reachable_Inv [OF assms(2)]]
    STF_TaskReady_imp_RIO [OF assms(1) RIO_reachable_Inv [OF assms(2)]
      RIO_reachable_Cover [OF assms]]
  by blast

lemma RIO_TaskReady_spec:
  assumes "maps_to_workers C" "RIO_reachable C s"
  shows "RIO_TaskReady C s t tid \<longleftrightarrow>
    spec_ready C (RIO_pendingTasks C s \<union> activeTasks C s) t tid"
  using RIO_TaskReady_iff_STF [OF assms, of t tid] STF_TaskReady_spec [of C "STF C s" t tid]
  by simp

lemma RIO_Ready_mono:
  assumes "terminatedTasks s \<subseteq> terminatedTasks s'"
  shows "RIO_ReadReady C s d tid \<Longrightarrow> RIO_ReadReady C s' d tid"
    and "RIO_WriteReady C s d tid \<Longrightarrow> RIO_WriteReady C s' d tid"
    and "RIO_TaskReady C s t tid \<Longrightarrow> RIO_TaskReady C s' t tid"
proof -
  show r: "RIO_ReadReady C s d tid \<Longrightarrow> RIO_ReadReady C s' d tid" for d
    using assms unfolding RIO_ReadReady_def by fast
  show w: "RIO_WriteReady C s d tid \<Longrightarrow> RIO_WriteReady C s' d tid" for d
    using assms unfolding RIO_WriteReady_def by fast
  show "RIO_TaskReady C s t tid \<Longrightarrow> RIO_TaskReady C s' t tid"
    using r w unfolding RIO_TaskReady_def by blast
qed

lemma RIO_Next_terminated_grows:
  assumes "RIO_Next C s s'"
  shows "terminatedTasks s \<subseteq> terminatedTasks s'"
  using assms by (cases rule: RIO_Next_cases) auto

lemma RIO_Terminate_terminated_grows:
  assumes "RIO_TerminateTask C w s s'"
  shows "terminatedTasks s \<subseteq> terminatedTasks s'"
  using assms by (auto simp: RIO_TerminateTask_def)

lemma RIO_TaskPartition:
  assumes maps: "maps_to_workers C" and reach: "RIO_reachable C s"
  shows "TaskPartition C s"
proof -
  note inv = RIO_reachable_Inv [OF reach]
  note cov = RIO_reachable_Cover [OF maps reach]
  have p1: "\<exists>!w. w \<in> Workers C \<and> x \<in> workerPendingTasks s w"
    if "x \<in> RIO_pendingTasks C s" for x
  proof (rule ex1I [of _ "Mapping C (snd x)"])
    from RIO_Inv_pending(4,5) [OF inv that]
    show "Mapping C (snd x) \<in> Workers C \<and> x \<in> workerPendingTasks s (Mapping C (snd x))"
      by simp
  next
    fix w
    assume "w \<in> Workers C \<and> x \<in> workerPendingTasks s w"
    then show "w = Mapping C (snd x)"
      using RIO_Inv_pending_worker(2) [OF inv, of w x] by simp
  qed
  have p2: "\<exists>!w. w \<in> Workers C \<and> workerStates s w = Some x"
    if "x \<in> activeTasks C s" for x
  proof (rule ex1I [of _ "Mapping C (snd x)"])
    from RIO_Inv_active(3,4) [OF inv that]
    show "Mapping C (snd x) \<in> Workers C \<and> workerStates s (Mapping C (snd x)) = Some x"
      by simp
  next
    fix w
    assume "w \<in> Workers C \<and> workerStates s w = Some x"
    then show "w = Mapping C (snd x)"
      using RIO_Inv_active_worker(2) [OF inv, of w x] by simp
  qed
  show ?thesis
    unfolding TaskPartition_def
  proof (intro conjI ballI)
    show "RIO_pendingTasks C s \<union> activeTasks C s \<union> terminatedTasks s = ControlFlow C"
      by (rule RIO_partition_union [OF maps inv cov])
    show "RIO_pendingTasks C s \<inter> activeTasks C s = {}"
      using RIO_Inv_pending(3) [OF inv] by auto
    show "RIO_pendingTasks C s \<inter> terminatedTasks s = {}"
      using RIO_Inv_pending(2) [OF inv] by auto
    show "activeTasks C s \<inter> terminatedTasks s = {}"
      using RIO_Inv_active(2) [OF inv] by auto
    show "\<exists>!w. w \<in> Workers C \<and> x \<in> workerPendingTasks s w"
      if "x \<in> RIO_pendingTasks C s" for x
      using that by (rule p1)
    show "\<exists>!w. w \<in> Workers C \<and> workerStates s w = Some x"
      if "x \<in> activeTasks C s" for x
      using that by (rule p2)
  qed
qed

lemma RIO_Init_all_pending:
  assumes "maps_to_workers C" "RIO_Init C s"
  shows "RIO_pendingTasks C s = ControlFlow C \<and> activeTasks C s = {} \<and> terminatedTasks s = {}"
proof -
  from RIO_Init_refines [OF assms] have "RIO_pendingTasks C s = ControlFlow C"
    by (simp add: STF_Init_def)
  moreover from assms(2) have "activeTasks C s = {}"
    by (simp add: RIO_Init_def activeTasks_def activeWorkers_def)
  moreover from assms(2) have "terminatedTasks s = {}" by (simp add: RIO_Init_def)
  ultimately show ?thesis by simp
qed

lemma RIO_Execute_moves:
  assumes inv: "RIO_Inv C s" and w: "w \<in> Workers C" and e: "RIO_ExecuteTask C w s s'"
  shows "\<exists>x \<in> RIO_pendingTasks C s.
      RIO_pendingTasks C s' = RIO_pendingTasks C s - {x} \<and>
      activeTasks C s' = insert x (activeTasks C s) \<and>
      terminatedTasks s' = terminatedTasks s"
proof -
  from w e have nxt: "RIO_Next C s s'" unfolding RIO_Next_def by blast
  from e obtain t tid where idle: "workerStates s w = Idle"
    and p: "(t, tid) \<in> workerPendingTasks s w"
    and ws: "workerStates s' = (workerStates s)(w := Some (t, tid))"
    and tt: "terminatedTasks s' = terminatedTasks s"
    unfolding RIO_ExecuteTask_def by blast
  from p w have xp: "(t, tid) \<in> RIO_pendingTasks C s" unfolding RIO_pendingTasks_iff by blast
  have a: "activeTasks C s' = insert (t, tid) (activeTasks C s)"
    by (rule activeTasks_upd_Some [OF w idle ws])
  have pend: "RIO_pendingTasks C s' = RIO_pendingTasks C s - {(t, tid)}"
  proof -
    from RIO_Next_refines [OF inv nxt] show ?thesis
    proof (cases rule: STF_Next_cases)
      case (exec v t' tid')
      then have eq: "RIO_pendingTasks C s' = RIO_pendingTasks C s - {(t', tid')}"
        and ws': "workerStates s' = (workerStates s)(v := Some (t', tid'))"
        by (simp_all add: STF_ExecuteTask_def)
      from ws ws' have "((workerStates s)(w := Some (t, tid))) w
          = ((workerStates s)(v := Some (t', tid'))) w" by simp
      with idle have "(t', tid') = (t, tid)" by (simp split: if_splits)
      with eq show ?thesis by simp
    next
      case (finish v)
      then have "workerStates s' = (workerStates s)(v := Idle)"
        by (simp add: STF_TerminateTask_def)
      with ws have "((workerStates s)(w := Some (t, tid))) w = ((workerStates s)(v := Idle)) w"
        by simp
      with idle show ?thesis by (simp split: if_splits)
    qed
  qed
  from xp pend a tt show ?thesis by (intro bexI [of _ "(t, tid)"]) simp_all
qed

lemma RIO_Terminate_moves:
  assumes inv: "RIO_Inv C s" and w: "w \<in> Workers C" and e: "RIO_TerminateTask C w s s'"
  shows "\<exists>x \<in> activeTasks C s.
      activeTasks C s' = activeTasks C s - {x} \<and>
      terminatedTasks s' = insert x (terminatedTasks s) \<and>
      RIO_pendingTasks C s' = RIO_pendingTasks C s"
proof -
  from e obtain x where x: "workerStates s w = Some x"
    unfolding RIO_TerminateTask_def by auto
  from e x have ws: "workerStates s' = (workerStates s)(w := Idle)"
    and tt: "terminatedTasks s' = insert x (terminatedTasks s)"
    and pp: "workerPendingTasks s' = workerPendingTasks s"
    unfolding RIO_TerminateTask_def by simp_all
  from w x have xa: "x \<in> activeTasks C s" unfolding activeTasks_iff by blast
  have "activeTasks C s' = activeTasks C s - {x}"
  proof (rule set_eqI)
    fix y
    show "y \<in> activeTasks C s' \<longleftrightarrow> y \<in> activeTasks C s - {x}"
    proof
      assume "y \<in> activeTasks C s'"
      then obtain v where v: "v \<in> Workers C" "workerStates s' v = Some y"
        unfolding activeTasks_iff by blast
      with ws have vw: "v \<noteq> w" and sy: "workerStates s v = Some y"
        by (auto split: if_splits)
      from RIO_Inv_active_worker(2) [OF inv v(1) sy] RIO_Inv_active_worker(2) [OF inv w x] vw
      have "y \<noteq> x" by auto
      moreover from v(1) sy have "y \<in> activeTasks C s" unfolding activeTasks_iff by blast
      ultimately show "y \<in> activeTasks C s - {x}" by simp
    next
      assume "y \<in> activeTasks C s - {x}"
      then have "y \<in> activeTasks C s" and ne: "y \<noteq> x" by simp_all
      then obtain v where v: "v \<in> Workers C" "workerStates s v = Some y"
        unfolding activeTasks_iff by blast
      with x ne have "v \<noteq> w" by auto
      with v(2) ws have "workerStates s' v = Some y" by simp
      with v(1) show "y \<in> activeTasks C s'" unfolding activeTasks_iff by blast
    qed
  qed
  moreover have "RIO_pendingTasks C s' = RIO_pendingTasks C s"
    by (simp add: RIO_pendingTasks_def pp)
  ultimately show ?thesis using xa tt by (intro bexI [of _ x]) simp_all
qed

subsection \<open>In-order execution\<close>

lemma prefix_of_sorted_list_of_set:
  fixes L :: "int list"
  assumes fin: "finite S" and srt: "sorted_wrt (<) L" and sub: "set L \<subseteq> S"
    and low: "\<forall>a \<in> set L. \<forall>b \<in> S - set L. a < b"
  shows "L = take (length L) (sorted_list_of_set S)"
proof -
  let ?M = "L @ sorted_list_of_set (S - set L)"
  from fin have fr: "finite (S - set L)" by simp
  from srt have sl: "sorted L" and dl: "distinct L"
    by (simp_all add: strict_sorted_iff)
  have "sorted ?M"
    using sl low fr by (auto simp: sorted_append less_imp_le)
  moreover have "distinct ?M"
    using dl fr by auto
  moreover have "set ?M = S"
    using sub fr by auto
  ultimately have "sorted_list_of_set S = ?M"
    using fin by (metis sorted_list_of_set.idem_if_sorted_distinct
      sorted_list_of_set.sorted_key_list_of_set_unique
      sorted_list_of_set.set_sorted_key_list_of_set
      sorted_list_of_set.sorted_sorted_key_list_of_set
      sorted_list_of_set.distinct_sorted_key_list_of_set sorted_distinct_set_unique)
  then show ?thesis by simp
qed

lemma RIO_Execute_head:
  assumes "RIO_ExecuteTask C w s s'"
  shows "\<exists>x \<in> workerPendingTasks s w.
      workerStates s' w = Some x \<and> (\<forall>y \<in> workerPendingTasks s w. snd x \<le> snd y)"
proof -
  from assms obtain t tid where p: "(t, tid) \<in> workerPendingTasks s w"
    and m: "\<forall>(other_t, other_tid) \<in> workerPendingTasks s w. tid \<le> other_tid"
    and ws: "workerStates s' = (workerStates s)(w := Some (t, tid))"
    unfolding RIO_ExecuteTask_def by blast
  from m have "\<forall>y \<in> workerPendingTasks s w. snd (t, tid) \<le> snd y"
    by (auto simp: split_beta)
  moreover from ws have "workerStates s' w = Some (t, tid)" by simp
  ultimately show ?thesis using p by (intro bexI [of _ "(t, tid)"]) simp_all
qed

lemma InOrder_step:
  assumes uniq: "unique_tids C" and w: "w \<in> Workers C"
    and inv: "RIO_Inv C (\<sigma> n)"
    and sq: "square (RIO_Next C) (\<sigma> n) (\<sigma> (Suc n))"
    and io: "InOrder C w \<sigma> n"
  shows "InOrder C w \<sigma> (Suc n)"
proof -
  from io have e1: "set (executed w \<sigma> n) = Mapped C w - workerPendingTasks (\<sigma> n) w"
    and e2: "\<forall>x \<in> set (executed w \<sigma> n). \<forall>y \<in> workerPendingTasks (\<sigma> n) w. snd x < snd y"
    and e3: "sorted_wrt (<) (map snd (executed w \<sigma> n))"
    unfolding InOrder_def by simp_all
  have same: "InOrder C w \<sigma> (Suc n)"
    if "started w (\<sigma> n) (\<sigma> (Suc n)) = []"
      "workerPendingTasks (\<sigma> (Suc n)) w = workerPendingTasks (\<sigma> n) w"
    using that e1 e2 e3 unfolding InOrder_def by simp
  from sq consider (stutter) "\<sigma> (Suc n) = \<sigma> n" | (moves) "RIO_Next C (\<sigma> n) (\<sigma> (Suc n))"
    unfolding square_def by blast
  then show ?thesis
  proof cases
    case stutter
    then show ?thesis by (intro same) (simp_all add: started_def split: option.splits)
  next
    case moves
    then show ?thesis
    proof (cases rule: RIO_Next_cases)
      case (finish v x)
      show ?thesis
      proof (intro same)
        show "started w (\<sigma> n) (\<sigma> (Suc n)) = []"
          using finish(2) by (auto simp: started_def finish(4) split: option.splits)
        show "workerPendingTasks (\<sigma> (Suc n)) w = workerPendingTasks (\<sigma> n) w"
          by (simp add: finish(6))
      qed
    next
      case (execute v t tid)
      show ?thesis
      proof (cases "v = w")
        case False
        show ?thesis
        proof (intro same)
          show "started w (\<sigma> n) (\<sigma> (Suc n)) = []"
            using False by (auto simp: started_def execute(7) split: option.splits)
          show "workerPendingTasks (\<sigma> (Suc n)) w = workerPendingTasks (\<sigma> n) w"
            using False by (simp add: execute(6))
        qed
      next
        case True
        let ?x = "(t, tid)"
        let ?P = "workerPendingTasks (\<sigma> n) w"
        from execute True have xp: "?x \<in> ?P" and idle: "workerStates (\<sigma> n) w = Idle"
          and xmin: "\<forall>y \<in> ?P. tid \<le> snd y"
          by simp_all
        have st: "started w (\<sigma> n) (\<sigma> (Suc n)) = [?x]"
          using idle True by (simp add: started_def execute(7))
        have p': "workerPendingTasks (\<sigma> (Suc n)) w = ?P - {?x}"
          using True by (simp add: execute(6))
        from inv w have sub: "?P \<subseteq> Mapped C w" unfolding RIO_Inv_def by blast
        have ex: "executed w \<sigma> (Suc n) = executed w \<sigma> n @ [?x]"
          by (simp add: st)
        have s1: "set (executed w \<sigma> (Suc n)) = Mapped C w - (?P - {?x})"
          using e1 xp sub unfolding ex by auto
        have lt: "tid < snd y" if "y \<in> ?P - {?x}" for y
        proof -
          from that xmin have le: "tid \<le> snd y" by simp
          from that sub xp have "y \<in> ControlFlow C" "?x \<in> ControlFlow C" "y \<noteq> ?x"
            by (auto simp: Mapped_iff)
          with uniq have "snd y \<noteq> snd ?x"
            unfolding unique_tids_def inj_on_def by blast
          with le show ?thesis by simp
        qed
        have s2: "\<forall>a \<in> set (executed w \<sigma> (Suc n)). \<forall>y \<in> ?P - {?x}. snd a < snd y"
        proof (intro ballI)
          fix a y
          assume a: "a \<in> set (executed w \<sigma> (Suc n))" and y: "y \<in> ?P - {?x}"
          from a consider "a \<in> set (executed w \<sigma> n)" | "a = ?x" unfolding ex by auto
          then show "snd a < snd y"
          proof cases
            case 1
            with e2 y show ?thesis by simp
          next
            case 2
            with lt [OF y] show ?thesis by simp
          qed
        qed
        have "snd a < tid" if "a \<in> set (executed w \<sigma> n)" for a
          using e2 that xp by fastforce
        then have s3: "sorted_wrt (<) (map snd (executed w \<sigma> (Suc n)))"
          using e3 unfolding ex by (auto simp: sorted_wrt_append)
        from s1 s2 s3 show ?thesis unfolding InOrder_def p' by simp
      qed
    qed
  qed
qed

lemma InOrder_Init:
  assumes "w \<in> Workers C" "RIO_Init C (\<sigma> 0)"
  shows "InOrder C w \<sigma> 0"
  using assms by (simp add: InOrder_def RIO_Init_def Mapped_def)

lemma InOrder_behavior:
  assumes uniq: "unique_tids C" and w: "w \<in> Workers C"
    and init: "RIO_Init C (\<sigma> 0)" and sq: "\<forall>n. square (RIO_Next C) (\<sigma> n) (\<sigma> (Suc n))"
  shows "InOrder C w \<sigma> n"
proof (induction n)
  case 0
  from w init show ?case by (rule InOrder_Init)
next
  case (Suc n)
  from sq have "square (RIO_Next C) (\<sigma> n) (\<sigma> (Suc n))" by simp
  from InOrder_step [OF uniq w RIO_reachable_Inv [OF RIO_behavior_reachable [OF init sq]] this Suc]
  show ?case .
qed

lemma InOrder_prefix:
  assumes fin: "finite (ControlFlow C)" and io: "InOrder C w \<sigma> n"
  shows "map snd (executed w \<sigma> n) =
     take (length (executed w \<sigma> n)) (sorted_list_of_set (snd ` Mapped C w))"
proof -
  let ?L = "map snd (executed w \<sigma> n)"
  let ?S = "snd ` Mapped C w"
  from io have e1: "set (executed w \<sigma> n) = Mapped C w - workerPendingTasks (\<sigma> n) w"
    and e2: "\<forall>x \<in> set (executed w \<sigma> n). \<forall>y \<in> workerPendingTasks (\<sigma> n) w. snd x < snd y"
    and e3: "sorted_wrt (<) ?L"
    unfolding InOrder_def by simp_all
  have "Mapped C w \<subseteq> ControlFlow C" by (auto simp: Mapped_iff)
  with fin have fS: "finite ?S" by (auto intro: finite_subset)
  have sub: "set ?L \<subseteq> ?S" using e1 by auto
  have low: "\<forall>a \<in> set ?L. \<forall>b \<in> ?S - set ?L. a < b"
  proof (intro ballI)
    fix a b
    assume a: "a \<in> set ?L" and b: "b \<in> ?S - set ?L"
    from a obtain x where x: "x \<in> set (executed w \<sigma> n)" "a = snd x" by auto
    from b obtain y where y: "y \<in> Mapped C w" "b = snd y" "y \<notin> set (executed w \<sigma> n)"
      by force
    from y(1,3) e1 have "y \<in> workerPendingTasks (\<sigma> n) w" by simp
    with e2 x(1) have "snd x < snd y" by simp
    with x(2) y(2) show "a < b" by simp
  qed
  from prefix_of_sorted_list_of_set [OF fS e3 sub low] show ?thesis by simp
qed

lemma InOrder_complete:
  assumes fin: "finite (ControlFlow C)" and io: "InOrder C w \<sigma> n"
    and emp: "workerPendingTasks (\<sigma> n) w = {}"
  shows "map snd (executed w \<sigma> n) = sorted_list_of_set (snd ` Mapped C w)"
proof -
  let ?L = "map snd (executed w \<sigma> n)"
  from io emp have s: "set (executed w \<sigma> n) = Mapped C w" and srt: "sorted_wrt (<) ?L"
    unfolding InOrder_def by simp_all
  from srt have "sorted ?L" "distinct ?L" by (simp_all add: strict_sorted_iff)
  moreover from s have "set ?L = snd ` Mapped C w" by simp
  ultimately show ?thesis
    by (metis sorted_list_of_set.idem_if_sorted_distinct)
qed

subsection \<open>Further consequences\<close>

lemma DataRaceFreedom_STF [simp]: "DataRaceFreedom C (STF C s) = DataRaceFreedom C s"
  by (simp add: DataRaceFreedom_def)

lemma RIO_reachable_STF:
  assumes maps: "maps_to_workers C"
  shows "RIO_reachable C s \<Longrightarrow> STF_reachable C (STF C s)"
proof (induction rule: RIO_reachable.induct)
  case (init s)
  with maps show ?case by (intro STF_reachable.init RIO_Init_refines)
next
  case (step s s')
  from RIO_Next_refines [OF RIO_reachable_Inv [OF step(1)] step(2)] step(3)
  show ?case by (rule STF_reachable.step [rotated])
qed

lemma STF_reachable_Inv: "STF_reachable C s \<Longrightarrow> STF_Inv C s"
  by (induction rule: STF_reachable.induct) (auto intro: STF_Inv_Init STF_Inv_Next)

lemma DataRaceFreedom_no_conflict:
  assumes uniq: "unique_tids C" and sub: "activeTasks C s \<subseteq> ControlFlow C"
    and drf: "DataRaceFreedom C s"
  shows "no_conflict C s"
  unfolding no_conflict_def
proof (intro ballI impI notI)
  fix T1 T2 H
  assume a: "T1 \<in> activeTasks C s" "T2 \<in> activeTasks C s" and h: "H \<in> Data C"
    and ne: "T1 \<noteq> T2"
    and c: "Tasks_at C (fst T1) H = W \<and> Tasks_at C (fst T2) H \<noteq> NoneDep"
  from a h drf c have "snd T1 = snd T2"
    unfolding DataRaceFreedom_def by fastforce
  with uniq sub a have "T1 = T2"
    unfolding unique_tids_def inj_on_def by blast
  with ne show False by simp
qed

lemma STF_terminated_stable:
  assumes sq: "\<forall>n. square (STF_Next C) (\<tau> n) (\<tau> (Suc n))" and t: "Terminated C (\<tau> n)"
  shows "Terminated C (\<tau> (n + k))"
proof (induction k)
  case 0
  from t show ?case by simp
next
  case (Suc k)
  from sq have "STF_Next C (\<tau> (n + k)) (\<tau> (Suc (n + k))) \<or> \<tau> (Suc (n + k)) = \<tau> (n + k)"
    by (simp add: square_def)
  then show ?case
  proof
    assume "STF_Next C (\<tau> (n + k)) (\<tau> (Suc (n + k)))"
    from STF_Next_shrinks [OF this] Suc show ?thesis by (auto simp: Terminated_def)
  next
    assume "\<tau> (Suc (n + k)) = \<tau> (n + k)"
    with Suc show ?thesis by simp
  qed
qed

subsection \<open>The run of \<open>ex_C\<close>\<close>

lemma ex_Tasks_at [simp]:
  "Tasks_at ex_C ''w'' d = W" "Tasks_at ex_C ''r1'' d = R" "Tasks_at ex_C ''r2'' d = R"
  by (simp_all add: Tasks_at_def ex_C_def)

lemma ex_consts [simp]:
  "Data ex_C = {''d''}" "Workers ex_C = {0, 1}"
  "ControlFlow ex_C = {(''w'', 0), (''r1'', 1), (''r2'', 2)}"
  "Mapping ex_C tid = nat (tid mod 2)"
  "dom (Tasks ex_C) = {''w'', ''r1'', ''r2''}"
  by (auto simp: ex_C_def)

lemma ex_Init: "RIO_Init ex_C ex_s0"
  by (auto simp: RIO_Init_def ex_s0_def fun_eq_iff)

lemma ex_step01: "RIO_ExecuteTask ex_C 0 ex_s0 ex_s1"
  by (auto simp: RIO_ExecuteTask_def RIO_TaskReady_def RIO_WriteReady_def RIO_ReadReady_def
      ex_s0_def ex_s1_def fun_eq_iff)

lemma ex_step12: "RIO_TerminateTask ex_C 0 ex_s1 ex_s2"
  by (auto simp: RIO_TerminateTask_def ex_s1_def ex_s2_def fun_eq_iff)

lemma ex_step23: "RIO_ExecuteTask ex_C 1 ex_s2 ex_s3"
  by (auto simp: RIO_ExecuteTask_def RIO_TaskReady_def RIO_WriteReady_def RIO_ReadReady_def
      ex_s2_def ex_s3_def fun_eq_iff)

lemma ex_step34: "RIO_ExecuteTask ex_C 0 ex_s3 ex_s4"
  by (auto simp: RIO_ExecuteTask_def RIO_TaskReady_def RIO_WriteReady_def RIO_ReadReady_def
      ex_s3_def ex_s4_def fun_eq_iff)

lemma ex_step45: "RIO_TerminateTask ex_C 1 ex_s4 ex_s5"
  by (auto simp: RIO_TerminateTask_def ex_s4_def ex_s5_def fun_eq_iff)

lemma ex_step56: "RIO_TerminateTask ex_C 0 ex_s5 ex_s6"
  by (auto simp: RIO_TerminateTask_def ex_s5_def ex_s6_def fun_eq_iff)

lemma ex_s6_disabled: "\<not> ENABLED (angle (RIO_Next ex_C)) ex_s6"
  by (auto simp: ENABLED_def angle_def RIO_Next_def RIO_ExecuteTask_def RIO_TerminateTask_def
      ex_s6_def)

lemma ex_run_simps [simp]:
  "ex_run 0 = ex_s0" "ex_run (Suc 0) = ex_s1" "ex_run 2 = ex_s2" "ex_run 3 = ex_s3"
  "ex_run 4 = ex_s4" "ex_run 5 = ex_s5" "n \<ge> 6 \<Longrightarrow> ex_run n = ex_s6"
  by (simp_all add: ex_run_def)

lemma ex_Next:
  "RIO_Next ex_C ex_s0 ex_s1" "RIO_Next ex_C ex_s1 ex_s2" "RIO_Next ex_C ex_s2 ex_s3"
  "RIO_Next ex_C ex_s3 ex_s4" "RIO_Next ex_C ex_s4 ex_s5" "RIO_Next ex_C ex_s5 ex_s6"
  using ex_step01 ex_step12 ex_step23 ex_step34 ex_step45 ex_step56
  unfolding RIO_Next_def by auto

lemma ex_reachable:
  "RIO_reachable ex_C ex_s0" "RIO_reachable ex_C ex_s1" "RIO_reachable ex_C ex_s2"
  "RIO_reachable ex_C ex_s3" "RIO_reachable ex_C ex_s4" "RIO_reachable ex_C ex_s5"
  "RIO_reachable ex_C ex_s6"
proof -
  show r0: "RIO_reachable ex_C ex_s0" by (rule RIO_reachable.init [OF ex_Init])
  show r1: "RIO_reachable ex_C ex_s1" by (rule RIO_reachable.step [OF r0 ex_Next(1)])
  show r2: "RIO_reachable ex_C ex_s2" by (rule RIO_reachable.step [OF r1 ex_Next(2)])
  show r3: "RIO_reachable ex_C ex_s3" by (rule RIO_reachable.step [OF r2 ex_Next(3)])
  show r4: "RIO_reachable ex_C ex_s4" by (rule RIO_reachable.step [OF r3 ex_Next(4)])
  show r5: "RIO_reachable ex_C ex_s5" by (rule RIO_reachable.step [OF r4 ex_Next(5)])
  show "RIO_reachable ex_C ex_s6" by (rule RIO_reachable.step [OF r5 ex_Next(6)])
qed

lemma ex_square: "square (RIO_Next ex_C) (ex_run n) (ex_run (Suc n))"
proof -
  consider "n = 0" | "n = 1" | "n = 2" | "n = 3" | "n = 4" | "n = 5" | "n \<ge> 6"
    by linarith
  then show ?thesis
  proof cases
    case 7
    then show ?thesis by (simp add: square_def)
  qed (simp_all add: square_def ex_Next numeral_2_eq_2 [symmetric] eval_nat_numeral(3) [symmetric]
        del: One_nat_def, simp_all add: ex_run_def ex_Next)
qed

lemma ex_WF: "WF (RIO_Next ex_C) ex_run"
proof -
  have "\<exists>m\<ge>n. \<not> ENABLED (angle (RIO_Next ex_C)) (ex_run m)" for n
    using ex_s6_disabled by (intro exI [of _ "n + 6"]) simp
  then show ?thesis unfolding WF_def by blast
qed

lemma ex_Spec: "RIO_Spec ex_C ex_run"
  unfolding RIO_Spec_def using ex_Init ex_square ex_WF by simp

lemma ex_finite: "finite (ControlFlow ex_C)"
  by simp

lemma ex_dom: "ControlFlow ex_C \<subseteq> dom (Tasks ex_C) \<times> UNIV"
  by simp

lemma ex_maps: "maps_to_workers ex_C"
  by (simp add: maps_to_workers_def)

lemma ex_unique: "unique_tids ex_C"
  by (simp add: unique_tids_def)

subsection \<open>The unbounded control flow\<close>

lemma inf_Init: "RIO_Init inf_C inf_s0"
  by (auto simp: RIO_Init_def inf_C_def inf_s0_def fun_eq_iff)

lemma inf_disabled: "\<not> ENABLED (angle (RIO_Next inf_C)) inf_s0"
proof
  assume "ENABLED (angle (RIO_Next inf_C)) inf_s0"
  then obtain s' where "RIO_Next inf_C inf_s0 s'"
    unfolding ENABLED_def angle_def by blast
  then show False
  proof (cases rule: RIO_Next_cases)
    case (execute w t tid)
    from execute(1) have w: "w = 0" by (simp add: inf_C_def)
    from execute(3) have "t = ''r''" "tid \<le> 0" by (simp_all add: w inf_s0_def)
    then have "(''r'', tid - 1) \<in> workerPendingTasks inf_s0 w"
      by (simp add: w inf_s0_def)
    with execute(4) have "tid \<le> tid - 1" by fastforce
    then show False by simp
  next
    case (finish w x)
    then show False by (simp add: inf_s0_def)
  qed
qed

lemma inf_RIO_Spec: "RIO_Spec inf_C stuck"
proof -
  have "\<exists>m\<ge>n. \<not> ENABLED (angle (RIO_Next inf_C)) (stuck m)" for n
    using inf_disabled by (intro exI [of _ n]) (simp add: stuck_def)
  then have "WF (RIO_Next inf_C) stuck" unfolding WF_def by blast
  then show ?thesis
    unfolding RIO_Spec_def using inf_Init by (simp add: stuck_def square_def)
qed

lemma inf_STF_enabled: "ENABLED (angle (STF_Next inf_C)) (STF inf_C inf_s0)"
proof -
  define s' :: "(string, nat) stf_state" where
    "s' = \<lparr>workerStates = (\<lambda>w. Idle)(0 := Some (''r'', 0)),
           pendingTasks = {''r''} \<times> {..0} - {(''r'', 0)}\<rparr>"
  have p: "RIO_pendingTasks inf_C inf_s0 = {''r''} \<times> {..0}"
    by (simp add: RIO_pendingTasks_def inf_C_def inf_s0_def)
  have a: "activeTasks inf_C inf_s0 = {}"
    by (simp add: activeTasks_def activeWorkers_def inf_s0_def)
  have ws: "workerStates inf_s0 = (\<lambda>w. Idle)"
    by (simp add: inf_s0_def)
  have r: "Tasks_at inf_C ''r'' d = R" for d
    by (simp add: Tasks_at_def inf_C_def)
  have "STF_ReadReady inf_C (STF inf_C inf_s0) d 0" for d
    unfolding STF_ReadReady_def by (auto simp: p a r)
  then have "STF_TaskReady inf_C (STF inf_C inf_s0) ''r'' 0"
    unfolding STF_TaskReady_def by (simp add: r)
  then have "STF_ExecuteTask inf_C 0 ''r'' 0 (STF inf_C inf_s0) s'"
    unfolding STF_ExecuteTask_def by (simp add: p ws s'_def)
  moreover have "(''r'', 0) \<in> pendingTasks (STF inf_C inf_s0)" by (simp add: p)
  moreover have "0 \<in> Workers inf_C" by (simp add: inf_C_def)
  ultimately have "STF_Next inf_C (STF inf_C inf_s0) s'"
    unfolding STF_Next_def by blast
  moreover have "workerStates s' 0 \<noteq> workerStates (STF inf_C inf_s0) 0"
    by (simp add: s'_def ws)
  then have "s' \<noteq> STF inf_C inf_s0" by auto
  ultimately show ?thesis unfolding ENABLED_def angle_def by blast
qed

lemma inf_maps: "maps_to_workers inf_C"
  by (simp add: maps_to_workers_def inf_C_def)

lemma inf_TypeOK: "RIO_TypeOK inf_C (stuck 0)"
proof -
  have "RIO_pendingTasks inf_C inf_s0 = ControlFlow inf_C"
    by (simp add: RIO_pendingTasks_def inf_C_def inf_s0_def)
  moreover have "activeTasks inf_C inf_s0 = {}"
    by (simp add: activeTasks_def activeWorkers_def inf_s0_def)
  moreover have "terminatedTasks inf_s0 = {}"
    by (simp add: inf_s0_def)
  moreover have "ControlFlow inf_C \<subseteq> dom (Tasks inf_C) \<times> UNIV"
    by (auto simp: inf_C_def)
  moreover have "Tasks_at inf_C t d \<in> {R, W, NoneDep}" for t d
    by (cases "Tasks_at inf_C t d") simp_all
  ultimately show ?thesis by (simp add: RIO_TypeOK_def stuck_def)
qed

lemma inf_not_STF_Spec: "\<not> STF_Spec inf_C (STF inf_C \<circ> stuck)"
proof
  assume "STF_Spec inf_C (STF inf_C \<circ> stuck)"
  then have "WF (STF_Next inf_C) (STF inf_C \<circ> stuck)" by (simp add: STF_Spec_def)
  then consider "\<exists>m. \<not> ENABLED (angle (STF_Next inf_C)) ((STF inf_C \<circ> stuck) m)"
    | "\<exists>m. angle (STF_Next inf_C) ((STF inf_C \<circ> stuck) m) ((STF inf_C \<circ> stuck) (Suc m))"
    unfolding WF_def by blast
  then show False
  proof cases
    case 1
    with inf_STF_enabled show False by (simp add: stuck_def)
  next
    case 2
    then show False by (simp add: angle_def stuck_def)
  qed
qed

text \<open>
  Without a lower bound on the identifiers a queue may have no task of minimum identifier:
  for \<open>inf_C\<close> the action \<open>ExecuteTask\<close> of \<open>RunInOrder\<close> is never enabled, while
  \<open>Next\<close> of \<open>STFSpec\<close> is enabled in every state and never taken.
\<close>

lemma refinement_needs_bounded_identifiers:
  "RIO_TypeOK inf_C (stuck 0) \<and> maps_to_workers inf_C \<and>
   RIO_Spec inf_C stuck \<and> \<not> STF_Spec inf_C (STF inf_C \<circ> stuck)"
  using inf_TypeOK inf_maps inf_RIO_Spec inf_not_STF_Spec by simp

subsection \<open>States of the run of \<open>ex_C\<close>\<close>

lemma ex_s1_sets:
  "RIO_pendingTasks ex_C ex_s1 = {(''r2'', 2), (''r1'', 1)}"
  "activeTasks ex_C ex_s1 = {(''w'', 0)}"
  by (auto simp: RIO_pendingTasks_def activeTasks_def activeWorkers_def ex_s1_def)

lemma ex_s2_sets:
  "RIO_pendingTasks ex_C ex_s2 = {(''r2'', 2), (''r1'', 1)}"
  "activeTasks ex_C ex_s2 = {}"
  by (auto simp: RIO_pendingTasks_def activeTasks_def activeWorkers_def ex_s2_def)

lemma ex_s4_active: "activeTasks ex_C ex_s4 = {(''r2'', 2), (''r1'', 1)}"
  by (auto simp: activeTasks_def activeWorkers_def ex_s4_def)

lemma ex_executed: "executed 0 ex_run 6 = [(''w'', 0), (''r2'', 2)]"
  by (simp add: eval_nat_numeral started_def ex_run_def ex_s0_def ex_s1_def ex_s2_def
      ex_s3_def ex_s4_def ex_s5_def ex_s6_def)

lemma ex_Mapped_0: "snd ` Mapped ex_C 0 = {0, 2}"
  by (auto simp: Mapped_def image_iff)

lemma ex_s3_sets:
  "RIO_pendingTasks ex_C ex_s3 = {(''r2'', 2)}"
  "activeTasks ex_C ex_s3 = {(''r1'', 1)}"
  "terminatedTasks ex_s3 = {(''w'', 0)}"
  by (auto simp: RIO_pendingTasks_def activeTasks_def activeWorkers_def ex_s3_def)

subsection \<open>Constants that are not well formed\<close>

lemma off_RIO_Spec: "RIO_Spec off_C off_run"
proof -
  have "\<not> ENABLED (angle (RIO_Next off_C)) off_s0"
    by (auto simp: ENABLED_def angle_def RIO_Next_def RIO_ExecuteTask_def RIO_TerminateTask_def
        off_s0_def off_C_def)
  then have "\<exists>m\<ge>n. \<not> ENABLED (angle (RIO_Next off_C)) (off_run m)" for n
    by (intro exI [of _ n]) (simp add: off_run_def)
  then have "WF (RIO_Next off_C) off_run" unfolding WF_def by blast
  moreover have "RIO_Init off_C off_s0"
    by (auto simp: RIO_Init_def off_C_def off_s0_def fun_eq_iff)
  ultimately show ?thesis
    unfolding RIO_Spec_def by (simp add: off_run_def square_def)
qed

lemma off_not_STF_Spec: "\<not> STF_Spec off_C (STF off_C \<circ> off_run)"
proof -
  have "RIO_pendingTasks off_C off_s0 = {}"
    by (simp add: RIO_pendingTasks_def off_s0_def)
  then have "\<not> STF_Init off_C (STF off_C off_s0)"
    by (simp add: STF_Init_def off_C_def)
  then show ?thesis by (simp add: STF_Spec_def off_run_def)
qed

lemma und_RIO_Spec: "RIO_Spec und_C und_run"
proof -
  have "\<not> ENABLED (angle (RIO_Next und_C)) und_s1"
    by (auto simp: ENABLED_def angle_def RIO_Next_def RIO_ExecuteTask_def RIO_TerminateTask_def
        und_s1_def und_C_def)
  then have "\<exists>m\<ge>n. \<not> ENABLED (angle (RIO_Next und_C)) (und_run m)" for n
    by (intro exI [of _ "Suc n"]) (simp add: und_run_def)
  then have "WF (RIO_Next und_C) und_run" unfolding WF_def by blast
  moreover have "RIO_Init und_C und_s0"
    by (auto simp: RIO_Init_def und_C_def und_s0_def fun_eq_iff)
  moreover have "RIO_ExecuteTask und_C 0 und_s0 und_s1"
    by (auto simp: RIO_ExecuteTask_def RIO_TaskReady_def und_C_def und_s0_def und_s1_def
        fun_eq_iff)
  then have "RIO_Next und_C und_s0 und_s1"
    unfolding RIO_Next_def by (auto simp: und_C_def)
  ultimately show ?thesis
    unfolding RIO_Spec_def by (simp add: und_run_def square_def)
qed

lemma und_STF_enabled: "ENABLED (angle (STF_Next und_C)) (STF und_C und_s1)"
proof -
  define s' :: "(string, nat) stf_state" where
    "s' = \<lparr>workerStates = (\<lambda>w. Idle)(0 := Some (''u'', 1), 1 := Some (''a'', 3)),
           pendingTasks = {}\<rparr>"
  have p: "RIO_pendingTasks und_C und_s1 = {(''a'', 3)}"
    by (auto simp: RIO_pendingTasks_def und_C_def und_s1_def)
  have ws: "workerStates und_s1 = (\<lambda>w. Idle)(0 := Some (''u'', 1))"
    by (simp add: und_s1_def)
  have "STF_TaskReady und_C (STF und_C und_s1) ''a'' 3"
    unfolding STF_TaskReady_def by (simp add: und_C_def)
  then have "STF_ExecuteTask und_C 1 ''a'' 3 (STF und_C und_s1) s'"
    unfolding STF_ExecuteTask_def by (simp add: p ws s'_def)
  moreover have "(''a'', 3) \<in> pendingTasks (STF und_C und_s1)" by (simp add: p)
  moreover have "1 \<in> Workers und_C" by (simp add: und_C_def)
  ultimately have "STF_Next und_C (STF und_C und_s1) s'"
    unfolding STF_Next_def by blast
  moreover have "workerStates s' 1 \<noteq> workerStates (STF und_C und_s1) 1"
    by (simp add: s'_def ws)
  then have "s' \<noteq> STF und_C und_s1" by auto
  ultimately show ?thesis unfolding ENABLED_def angle_def by blast
qed

lemma und_not_STF_Spec: "\<not> STF_Spec und_C (STF und_C \<circ> und_run)"
proof
  assume "STF_Spec und_C (STF und_C \<circ> und_run)"
  then have "WF (STF_Next und_C) (STF und_C \<circ> und_run)" by (simp add: STF_Spec_def)
  then consider
    "\<exists>m\<ge>1. \<not> ENABLED (angle (STF_Next und_C)) ((STF und_C \<circ> und_run) m)"
    | "\<exists>m\<ge>1. angle (STF_Next und_C) ((STF und_C \<circ> und_run) m) ((STF und_C \<circ> und_run) (Suc m))"
    unfolding WF_def by blast
  then show False
  proof cases
    case 1
    with und_STF_enabled show False by (auto simp: und_run_def)
  next
    case 2
    then show False by (auto simp: angle_def und_run_def)
  qed
qed

lemma refinement_needs_well_formed_constants:
  "RIO_Spec off_C off_run \<and> \<not> STF_Spec off_C (STF off_C \<circ> off_run) \<and>
   \<not> maps_to_workers off_C \<and>
   RIO_Spec und_C und_run \<and> \<not> STF_Spec und_C (STF und_C \<circ> und_run) \<and>
   \<not> ControlFlow und_C \<subseteq> dom (Tasks und_C) \<times> UNIV"
  using off_RIO_Spec off_not_STF_Spec und_RIO_Spec und_not_STF_Spec
  by (simp add: maps_to_workers_def off_C_def und_C_def)

subsection \<open>The driver\<close>

lemma N_DATA_eq: "N_DATA = 128"
  by (simp add: N_DATA_def DATA_SHIFT_def)

lemma unat_N_DATA: "unat N_DATA = 128"
  by (simp add: N_DATA_eq)

lemma length_init: "length init = 128"
  by (simp add: init_def unat_N_DATA)

lemma unat_mod_N_DATA: "unat (y mod N_DATA) < 128"
proof -
  have "unat (y mod N_DATA) = unat y mod 128"
    by (simp add: unat_mod unat_N_DATA)
  then show ?thesis by simp
qed

lemma H_read_init: "unat i < 128 \<Longrightarrow> H_read init i = Some (Handle (unat i))"
  by (simp add: H_read_def length_init) (simp add: init_def unat_N_DATA)

lemma first_value: "fst (rng_next rng_new) = 2665565789183166779"
  by (simp add: rng_next_def rng_new_def Let_def)

lemma first_indices:
  "idx_1 2665565789183166779 = 59"
  "idx_2 2665565789183166779 = 18"
  "idx_3 2665565789183166779 = 73"
  by (simp_all add: idx_1_def idx_2_def idx_3_def N_DATA_eq DATA_SHIFT_def)

lemma run_body_by_branch:
  "run_body H x =
     (case run_branch x of
        Arm_1_eq_2_eq_3 \<Rightarrow>
          do { h0 \<leftarrow> H_read H (idx_1 x);
               Some \<lparr>cl = count1_codelet, handles = [h0]\<rparr> }
      | Arm_1_eq_2 \<Rightarrow>
          do { h0 \<leftarrow> H_read H (idx_1 x);
               h1 \<leftarrow> H_read H (idx_3 x);
               Some \<lparr>cl = count2_codelet, handles = [h0, h1]\<rparr> }
      | Arm_3_collides \<Rightarrow>
          do { h0 \<leftarrow> H_read H (idx_1 x);
               h1 \<leftarrow> H_read H (idx_2 x);
               Some \<lparr>cl = count2_codelet, handles = [h0, h1]\<rparr> }
      | Arm_else \<Rightarrow>
          do { h0 \<leftarrow> H_read H (idx_1 x);
               h1 \<leftarrow> H_read H (idx_2 x);
               h2 \<leftarrow> H_read H (idx_3 x);
               Some \<lparr>cl = count2_codelet, handles = [h0, h1, h2]\<rparr> })"
  by (simp add: run_body_def run_branch_def)

lemma first_task:
  "run_body init 2665565789183166779 =
     Some \<lparr>cl = count2_codelet, handles = [Handle 59, Handle 18, Handle 73]\<rparr>"
  by (simp add: run_body_def first_indices H_read_init)

section \<open>The claims\<close>

subsection \<open>Refinement\<close>

text \<open>
  Claim C1. Every behaviour of \<open>RunInOrder\<close> (\<open>Init\<close>, then \<open>ExecuteTask\<close>,
  \<open>TerminateTask\<close> or stuttering steps, under weak fairness of \<open>Next\<close>) is a behaviour of
  the STF specification: \<open>Spec \<Rightarrow> STF!Spec\<close>, for every choice of \<open>Data\<close>, \<open>Tasks\<close>,
  \<open>Workers\<close>, \<open>ControlFlow\<close> and \<open>Mapping\<close> that is well formed: the task names of the
  control flow are in the domain of \<open>Tasks\<close> and the mapping sends each of its identifiers
  to a member of \<open>Workers\<close>, which is \<open>TypeOK\<close> in the initial state, and the
  identifiers are bounded below, as those of every finite control flow are (lemma
  \<open>finite_tids_bounded_below\<close>) and as identifiers given by an increasing submission
  counter are.
\<close>

theorem RunInOrder_implements_STF:
  assumes "tids_bounded_below C"
    and "ControlFlow C \<subseteq> dom (Tasks C) \<times> UNIV"
    and "maps_to_workers C"
    and "RIO_Spec C \<sigma>"
  shows "STF_Spec C (STF C \<circ> \<sigma>)"
  using RIO_implements_STF [OF assms] by (simp add: comp_def)

text \<open>
  Claim C1 at the run \<open>ex_run\<close> of the control flow \<open>ex_C\<close>.
\<close>

theorem RunInOrder_implements_STF_witness:
  "finite (ControlFlow ex_C) \<and> tids_bounded_below ex_C \<and>
   ControlFlow ex_C \<subseteq> dom (Tasks ex_C) \<times> UNIV \<and>
   maps_to_workers ex_C \<and> RIO_Spec ex_C ex_run \<and> STF_Spec ex_C (STF ex_C \<circ> ex_run)"
  using RunInOrder_implements_STF [OF finite_tids_bounded_below [OF ex_finite] ex_dom ex_maps ex_Spec]
    ex_finite finite_tids_bounded_below [OF ex_finite] ex_dom ex_maps ex_Spec
  by simp

subsection \<open>Readiness\<close>

text \<open>
  Claim C2. For every task \<open>t\<close> with identifier \<open>tid\<close> (in particular the head of a
  queue), \<open>TaskReady(t, tid)\<close> holds if and only if, for every data item and mode of the
  access list of \<open>t\<close>: when the mode is read, no pending or active task with a smaller
  identifier writes the item, and when the mode is write, no pending or active task with a
  smaller identifier accesses the item at all. This holds for \<open>TaskReady\<close> of
  \<open>RunInOrder\<close> in every reachable state (the mapping being into the workers), where the
  unfinished tasks are exactly the tasks of the control flow that have not terminated, and
  for \<open>TaskReady\<close> of \<open>STFSpec\<close> in every state.
\<close>

theorem TaskReady_is_resolver_readiness:
  assumes "maps_to_workers C" and "RIO_reachable C s"
  shows "(RIO_TaskReady C s t tid \<longleftrightarrow>
            spec_ready C (RIO_pendingTasks C s \<union> activeTasks C s) t tid) \<and>
         (STF_TaskReady C u t tid \<longleftrightarrow>
            spec_ready C (pendingTasks u \<union> activeTasks C u) t tid)"
  by (intro conjI) (rule RIO_TaskReady_spec [OF assms], rule STF_TaskReady_spec)

text \<open>
  Claim C2 at two reachable states of \<open>ex_C\<close>: while the writer is active the reader
  \<open>r1\<close> is not ready, by either predicate; once the writer has terminated it is ready, by
  either predicate.
\<close>

theorem TaskReady_is_resolver_readiness_witness:
  "maps_to_workers ex_C \<and> RIO_reachable ex_C ex_s1 \<and> RIO_reachable ex_C ex_s2 \<and>
   \<not> RIO_TaskReady ex_C ex_s1 ''r1'' 1 \<and>
   \<not> spec_ready ex_C {(''w'', 0), (''r2'', 2), (''r1'', 1)} ''r1'' 1 \<and>
   RIO_TaskReady ex_C ex_s2 ''r1'' 1 \<and>
   spec_ready ex_C {(''r2'', 2), (''r1'', 1)} ''r1'' 1"
proof -
  have n1: "\<not> RIO_TaskReady ex_C ex_s1 ''r1'' 1"
    by (simp add: RIO_TaskReady_def RIO_ReadReady_def ex_s1_def)
  have r2: "RIO_TaskReady ex_C ex_s2 ''r1'' 1"
    by (simp add: RIO_TaskReady_def RIO_ReadReady_def ex_s2_def)
  from n1 TaskReady_is_resolver_readiness [OF ex_maps ex_reachable(2), of "''r1''" 1]
  have "\<not> spec_ready ex_C (RIO_pendingTasks ex_C ex_s1 \<union> activeTasks ex_C ex_s1) ''r1'' 1"
    by simp
  moreover from r2 TaskReady_is_resolver_readiness [OF ex_maps ex_reachable(3), of "''r1''" 1]
  have "spec_ready ex_C (RIO_pendingTasks ex_C ex_s2 \<union> activeTasks ex_C ex_s2) ''r1'' 1"
    by simp
  ultimately show ?thesis
    using n1 r2 ex_maps ex_reachable(2,3) by (simp add: ex_s1_sets ex_s2_sets)
qed

text \<open>
  Claim C9. Readiness is monotone in \<open>terminatedTasks\<close>: when the set of terminated tasks
  grows, as it does in every \<open>TerminateTask\<close> step and in every \<open>Next\<close> step,
  \<open>ReadReady\<close>, \<open>WriteReady\<close> and \<open>TaskReady\<close> of \<open>RunInOrder\<close> continue to hold.
  So a head that is ready stays ready until it starts.
\<close>

theorem readiness_is_stable:
  assumes "RIO_TerminateTask C w s s' \<or> RIO_Next C s s' \<or>
           terminatedTasks s \<subseteq> terminatedTasks s'"
  shows "terminatedTasks s \<subseteq> terminatedTasks s' \<and>
         (RIO_ReadReady C s d tid \<longrightarrow> RIO_ReadReady C s' d tid) \<and>
         (RIO_WriteReady C s d tid \<longrightarrow> RIO_WriteReady C s' d tid) \<and>
         (RIO_TaskReady C s t tid \<longrightarrow> RIO_TaskReady C s' t tid)"
proof -
  from assms have sub: "terminatedTasks s \<subseteq> terminatedTasks s'"
    using RIO_Terminate_terminated_grows [of C w s s'] RIO_Next_terminated_grows [of C s s']
    by blast
  from sub RIO_Ready_mono [OF sub, of C] show ?thesis by blast
qed

text \<open>
  Claim C9 on the run of \<open>ex_C\<close>: the reader \<open>r2\<close> is not ready while the writer is
  active, is ready once the writer has terminated, and is still ready after the other reader
  has started.
\<close>

theorem readiness_is_stable_witness:
  "RIO_Next ex_C ex_s2 ex_s3 \<and> RIO_TerminateTask ex_C 0 ex_s1 ex_s2 \<and>
   RIO_TaskReady ex_C ex_s2 ''r2'' 2 \<and> RIO_TaskReady ex_C ex_s3 ''r2'' 2 \<and>
   \<not> RIO_TaskReady ex_C ex_s1 ''r2'' 2 \<and>
   terminatedTasks ex_s1 \<subseteq> terminatedTasks ex_s2"
proof -
  have r: "RIO_TaskReady ex_C ex_s2 ''r2'' 2"
    by (simp add: RIO_TaskReady_def RIO_ReadReady_def ex_s2_def)
  have n: "\<not> RIO_TaskReady ex_C ex_s1 ''r2'' 2"
    by (simp add: RIO_TaskReady_def RIO_ReadReady_def ex_s1_def)
  from readiness_is_stable [of ex_C 0 ex_s2 ex_s3 "''d''" 2 "''r2''"] ex_Next(3) r
  have "RIO_TaskReady ex_C ex_s3 ''r2'' 2" by blast
  moreover from readiness_is_stable [of ex_C 0 ex_s1 ex_s2 "''d''" 2 "''r2''"] ex_step12
  have "terminatedTasks ex_s1 \<subseteq> terminatedTasks ex_s2" by blast
  ultimately show ?thesis using ex_Next(3) ex_step12 r n by blast
qed

subsection \<open>Safety\<close>

text \<open>
  Claim C3. \<open>DataRaceFreedom\<close> holds in every reachable state of \<open>STFSpec\<close>, and in every
  reachable state of \<open>RunInOrder\<close> when the mapping is into the workers: of two active
  tasks with different identifiers, when one writes a data item the other does not access
  it. When the identifiers of the control flow are unique, as the data model requires, two
  different active tasks never conflict.
\<close>

theorem DataRaceFreedom_invariant:
  "(STF_reachable C s \<longrightarrow> DataRaceFreedom C s \<and> (unique_tids C \<longrightarrow> no_conflict C s)) \<and>
   (maps_to_workers C \<and> RIO_reachable C r \<longrightarrow>
      DataRaceFreedom C r \<and> (unique_tids C \<longrightarrow> no_conflict C r))"
proof -
  have stf: "DataRaceFreedom C s \<and> (unique_tids C \<longrightarrow> no_conflict C s)"
    if reach: "STF_reachable C s" for s :: "('a, 'c) stf_state"
  proof -
    from reach have drf: "DataRaceFreedom C s"
      by (intro ActiveReady_DataRaceFreedom STF_reachable_ActiveReady)
    from STF_reachable_Inv [OF reach] have "activeTasks C s \<subseteq> ControlFlow C"
      by (simp add: STF_Inv_def)
    with drf show ?thesis by (auto intro: DataRaceFreedom_no_conflict)
  qed
  have "DataRaceFreedom C r \<and> (unique_tids C \<longrightarrow> no_conflict C r)"
    if "maps_to_workers C" "RIO_reachable C r"
    using stf [OF RIO_reachable_STF [OF that]]
    by (simp add: no_conflict_def)
  with stf show ?thesis by blast
qed

text \<open>
  Claim C3 at the state of the run of \<open>ex_C\<close> in which the two readers are active at the
  same time.
\<close>

theorem DataRaceFreedom_invariant_witness:
  "maps_to_workers ex_C \<and> unique_tids ex_C \<and> RIO_reachable ex_C ex_s4 \<and>
   STF_reachable ex_C (STF ex_C ex_s4) \<and>
   activeTasks ex_C ex_s4 = {(''r2'', 2), (''r1'', 1)} \<and>
   DataRaceFreedom ex_C ex_s4 \<and> no_conflict ex_C ex_s4 \<and>
   DataRaceFreedom ex_C (STF ex_C ex_s4)"
  using DataRaceFreedom_invariant [of ex_C "STF ex_C ex_s4" ex_s4]
    RIO_reachable_STF [OF ex_maps ex_reachable(5)] ex_maps ex_unique ex_reachable(5) ex_s4_active
  by simp

text \<open>
  Claim C6. When the mapping is into the workers: in the initial state all tasks of the
  control flow are pending; in every reachable state the pending, active and terminated
  tasks cover the control flow and are pairwise disjoint, a pending task is in the queue of
  exactly one worker and an active task is on exactly one worker; \<open>TypeOK\<close> holds there
  when the task names of the control flow are in the domain of \<open>Tasks\<close>; every step
  preserves the partition;
  an \<open>ExecuteTask\<close> step moves exactly one task from pending to active and a
  \<open>TerminateTask\<close> step moves exactly one task from active to terminated.
\<close>

theorem task_state_partition:
  assumes maps: "maps_to_workers C"
  shows "(RIO_Init C s \<longrightarrow>
            RIO_pendingTasks C s = ControlFlow C \<and> activeTasks C s = {} \<and>
            terminatedTasks s = {}) \<and>
         (RIO_reachable C s \<longrightarrow> TaskPartition C s) \<and>
         (RIO_reachable C s \<and> ControlFlow C \<subseteq> dom (Tasks C) \<times> UNIV \<longrightarrow> RIO_TypeOK C s) \<and>
         (RIO_reachable C s \<and> RIO_Next C s s' \<longrightarrow> TaskPartition C s') \<and>
         (RIO_reachable C s \<and> w \<in> Workers C \<and> RIO_ExecuteTask C w s s' \<longrightarrow>
            (\<exists>x \<in> RIO_pendingTasks C s.
               RIO_pendingTasks C s' = RIO_pendingTasks C s - {x} \<and>
               activeTasks C s' = insert x (activeTasks C s) \<and>
               terminatedTasks s' = terminatedTasks s)) \<and>
         (RIO_reachable C s \<and> w \<in> Workers C \<and> RIO_TerminateTask C w s s' \<longrightarrow>
            (\<exists>x \<in> activeTasks C s.
               activeTasks C s' = activeTasks C s - {x} \<and>
               terminatedTasks s' = insert x (terminatedTasks s) \<and>
               RIO_pendingTasks C s' = RIO_pendingTasks C s))"
proof -
  have 1: "RIO_Init C s \<longrightarrow>
      RIO_pendingTasks C s = ControlFlow C \<and> activeTasks C s = {} \<and> terminatedTasks s = {}"
    by (intro impI RIO_Init_all_pending [OF maps])
  have 2: "RIO_reachable C s \<longrightarrow> TaskPartition C s"
    by (intro impI RIO_TaskPartition [OF maps])
  have 6: "RIO_reachable C s \<and> ControlFlow C \<subseteq> dom (Tasks C) \<times> UNIV \<longrightarrow> RIO_TypeOK C s"
  proof
    assume a: "RIO_reachable C s \<and> ControlFlow C \<subseteq> dom (Tasks C) \<times> UNIV"
    have "Tasks_at C t d \<in> {R, W, NoneDep}" for t d
      by (cases "Tasks_at C t d") simp_all
    moreover from a maps have "TaskPartition C s" by (simp add: RIO_TaskPartition)
    ultimately show "RIO_TypeOK C s"
      using a by (simp add: RIO_TypeOK_def TaskPartition_def)
  qed
  have 3: "RIO_reachable C s \<and> RIO_Next C s s' \<longrightarrow> TaskPartition C s'"
  proof
    assume "RIO_reachable C s \<and> RIO_Next C s s'"
    then have "RIO_reachable C s'" by (auto intro: RIO_reachable.step)
    with maps show "TaskPartition C s'" by (rule RIO_TaskPartition)
  qed
  have 4: "RIO_reachable C s \<and> w \<in> Workers C \<and> RIO_ExecuteTask C w s s' \<longrightarrow>
      (\<exists>x \<in> RIO_pendingTasks C s.
         RIO_pendingTasks C s' = RIO_pendingTasks C s - {x} \<and>
         activeTasks C s' = insert x (activeTasks C s) \<and>
         terminatedTasks s' = terminatedTasks s)"
  proof
    assume a: "RIO_reachable C s \<and> w \<in> Workers C \<and> RIO_ExecuteTask C w s s'"
    then have "RIO_Inv C s" by (simp add: RIO_reachable_Inv)
    with a show "\<exists>x \<in> RIO_pendingTasks C s.
        RIO_pendingTasks C s' = RIO_pendingTasks C s - {x} \<and>
        activeTasks C s' = insert x (activeTasks C s) \<and> terminatedTasks s' = terminatedTasks s"
      by (intro RIO_Execute_moves [of C s w s']) simp_all
  qed
  have 5: "RIO_reachable C s \<and> w \<in> Workers C \<and> RIO_TerminateTask C w s s' \<longrightarrow>
      (\<exists>x \<in> activeTasks C s.
         activeTasks C s' = activeTasks C s - {x} \<and>
         terminatedTasks s' = insert x (terminatedTasks s) \<and>
         RIO_pendingTasks C s' = RIO_pendingTasks C s)"
  proof
    assume a: "RIO_reachable C s \<and> w \<in> Workers C \<and> RIO_TerminateTask C w s s'"
    then have "RIO_Inv C s" by (simp add: RIO_reachable_Inv)
    with a show "\<exists>x \<in> activeTasks C s.
        activeTasks C s' = activeTasks C s - {x} \<and>
        terminatedTasks s' = insert x (terminatedTasks s) \<and>
        RIO_pendingTasks C s' = RIO_pendingTasks C s"
      by (intro RIO_Terminate_moves [of C s w s']) simp_all
  qed
  from 1 2 6 3 4 5 show ?thesis by (intro conjI)
qed

text \<open>
  Claim C6 at the step of the run of \<open>ex_C\<close> in which worker 0 starts the second reader.
\<close>

theorem task_state_partition_witness:
  "maps_to_workers ex_C \<and> RIO_reachable ex_C ex_s3 \<and> 0 \<in> Workers ex_C \<and>
   RIO_ExecuteTask ex_C 0 ex_s3 ex_s4 \<and>
   RIO_pendingTasks ex_C ex_s3 = {(''r2'', 2)} \<and> activeTasks ex_C ex_s3 = {(''r1'', 1)} \<and>
   terminatedTasks ex_s3 = {(''w'', 0)} \<and>
   TaskPartition ex_C ex_s3 \<and> RIO_TypeOK ex_C ex_s3 \<and> TaskPartition ex_C ex_s4 \<and>
   activeTasks ex_C ex_s4 = {(''r2'', 2), (''r1'', 1)}"
  using task_state_partition [OF ex_maps, of ex_s3 ex_s4 0]
    ex_maps ex_dom ex_reachable(4) ex_step34 ex_Next(4) ex_s3_sets ex_s4_active
  by simp

text \<open>
  Claim C5. In an \<open>ExecuteTask\<close> step the task a worker starts has the minimum identifier
  among the pending tasks of this worker. With unique identifiers and a finite control
  flow, along every behaviour that starts in \<open>Init\<close> and takes \<open>Next\<close> or stuttering
  steps, the identifiers of the tasks a worker has started are strictly increasing and are
  an initial segment of the identifiers mapped to this worker in increasing order, that is
  in submission order; they are all of them once the queue of the worker is empty.
\<close>

theorem worker_executes_in_order:
  assumes uniq: "unique_tids C" and fin: "finite (ControlFlow C)" and w: "w \<in> Workers C"
    and init: "RIO_Init C (\<sigma> 0)"
    and sq: "\<forall>n. square (RIO_Next C) (\<sigma> n) (\<sigma> (Suc n))"
  shows "(RIO_ExecuteTask C w s s' \<longrightarrow>
            (\<exists>x \<in> workerPendingTasks s w. workerStates s' w = Some x \<and>
               (\<forall>y \<in> workerPendingTasks s w. snd x \<le> snd y))) \<and>
         sorted_wrt (<) (map snd (executed w \<sigma> n)) \<and>
         map snd (executed w \<sigma> n) =
           take (length (executed w \<sigma> n)) (sorted_list_of_set (snd ` Mapped C w)) \<and>
         (workerPendingTasks (\<sigma> n) w = {} \<longrightarrow>
            map snd (executed w \<sigma> n) = sorted_list_of_set (snd ` Mapped C w))"
proof -
  note io = InOrder_behavior [OF uniq w init sq, of n]
  from io have "sorted_wrt (<) (map snd (executed w \<sigma> n))" by (simp add: InOrder_def)
  with RIO_Execute_head [of C w s s'] InOrder_prefix [OF fin io] InOrder_complete [OF fin io]
  show ?thesis by blast
qed

text \<open>
  Claim C5 for worker 0 on the run of \<open>ex_C\<close>: it starts the writer (identifier 0) and
  then the second reader (identifier 2), the identifiers mapped to it.
\<close>

theorem worker_executes_in_order_witness:
  "unique_tids ex_C \<and> finite (ControlFlow ex_C) \<and> 0 \<in> Workers ex_C \<and> RIO_Init ex_C (ex_run 0) \<and>
   (\<forall>n. square (RIO_Next ex_C) (ex_run n) (ex_run (Suc n))) \<and>
   RIO_ExecuteTask ex_C 0 ex_s0 ex_s1 \<and>
   executed 0 ex_run 6 = [(''w'', 0), (''r2'', 2)] \<and>
   workerPendingTasks (ex_run 6) 0 = {} \<and>
   sorted_list_of_set (snd ` Mapped ex_C 0) = [0, 2]"
proof -
  have w: "0 \<in> Workers ex_C" by simp
  have i: "RIO_Init ex_C (ex_run 0)" using ex_Init by simp
  have sq: "\<forall>n. square (RIO_Next ex_C) (ex_run n) (ex_run (Suc n))" using ex_square by simp
  have e: "workerPendingTasks (ex_run 6) 0 = {}" by (simp add: ex_s6_def)
  from worker_executes_in_order [OF ex_unique ex_finite w i sq, of ex_s0 ex_s1 6] e
  have "map snd (executed 0 ex_run 6) = sorted_list_of_set (snd ` Mapped ex_C 0)" by blast
  then have "sorted_list_of_set (snd ` Mapped ex_C 0) = [0, 2]" by (simp add: ex_executed)
  with ex_unique ex_finite w i sq ex_step01 ex_executed e show ?thesis by blast
qed

subsection \<open>Liveness\<close>

text \<open>
  Claim C4. For every finite control flow whose task names are in the domain of \<open>Tasks\<close>
  and whose identifiers are mapped to workers, every behaviour of \<open>RunInOrder\<close> under its
  fairness condition reaches a state from which on no task is pending, no worker executes a
  task and all tasks of the control flow have terminated; and every behaviour of
  \<open>STFSpec\<close> under its fairness condition reaches a state from which on \<open>Terminated\<close>
  holds.
\<close>

theorem RunInOrder_terminates:
  assumes fin: "finite (ControlFlow C)"
    and dom: "ControlFlow C \<subseteq> dom (Tasks C) \<times> UNIV"
    and maps: "maps_to_workers C"
  shows "(RIO_Spec C \<sigma> \<longrightarrow>
            (\<exists>n. \<forall>m\<ge>n. Terminated C (STF C (\<sigma> m)) \<and> RIO_pendingTasks C (\<sigma> m) = {} \<and>
               activeTasks C (\<sigma> m) = {} \<and> terminatedTasks (\<sigma> m) = ControlFlow C)) \<and>
         (STF_Spec C \<tau> \<longrightarrow> (\<exists>n. \<forall>m\<ge>n. Terminated C (\<tau> m)))"
proof (intro conjI impI)
  assume spec: "RIO_Spec C \<sigma>"
  from RIO_terminates [OF fin dom maps spec] obtain n where n: "Terminated C (STF C (\<sigma> n))"
    by blast
  from RIO_implements_STF [OF finite_tids_bounded_below [OF fin] dom maps spec]
  have sq: "\<forall>k. square (STF_Next C) (STF C (\<sigma> k)) (STF C (\<sigma> (Suc k)))"
    by (simp add: STF_Spec_def)
  from spec have init: "RIO_Init C (\<sigma> 0)"
    and rsq: "\<forall>n. square (RIO_Next C) (\<sigma> n) (\<sigma> (Suc n))"
    by (simp_all add: RIO_Spec_def)
  have "Terminated C (STF C (\<sigma> m)) \<and> RIO_pendingTasks C (\<sigma> m) = {} \<and>
        activeTasks C (\<sigma> m) = {} \<and> terminatedTasks (\<sigma> m) = ControlFlow C"
    if "m \<ge> n" for m
  proof -
    from STF_terminated_stable [OF sq n, of "m - n"] that
    have t: "Terminated C (STF C (\<sigma> m))" by simp
    then have e: "RIO_pendingTasks C (\<sigma> m) = {}" "activeTasks C (\<sigma> m) = {}"
      by (simp_all add: Terminated_def)
    note reach = RIO_behavior_reachable [OF init rsq, of m]
    from RIO_partition_union [OF maps RIO_reachable_Inv [OF reach] RIO_reachable_Cover [OF maps reach]] e
    have "terminatedTasks (\<sigma> m) = ControlFlow C" by simp
    with t e show ?thesis by simp
  qed
  then show "\<exists>n. \<forall>m\<ge>n. Terminated C (STF C (\<sigma> m)) \<and> RIO_pendingTasks C (\<sigma> m) = {} \<and>
      activeTasks C (\<sigma> m) = {} \<and> terminatedTasks (\<sigma> m) = ControlFlow C"
    by blast
next
  assume spec: "STF_Spec C \<tau>"
  from STF_terminates [OF fin dom maps_to_workers_nonempty [OF maps] spec]
  obtain n where n: "Terminated C (\<tau> n)" by blast
  from spec have sq: "\<forall>k. square (STF_Next C) (\<tau> k) (\<tau> (Suc k))"
    by (simp add: STF_Spec_def)
  have "Terminated C (\<tau> m)" if "m \<ge> n" for m
    using STF_terminated_stable [OF sq n, of "m - n"] that by simp
  then show "\<exists>n. \<forall>m\<ge>n. Terminated C (\<tau> m)" by blast
qed

text \<open>
  Claim C4 on the run of \<open>ex_C\<close>.
\<close>

theorem RunInOrder_terminates_witness:
  "finite (ControlFlow ex_C) \<and> ControlFlow ex_C \<subseteq> dom (Tasks ex_C) \<times> UNIV \<and>
   maps_to_workers ex_C \<and> RIO_Spec ex_C ex_run \<and>
   (\<exists>n. Terminated ex_C (STF ex_C (ex_run n)) \<and> terminatedTasks (ex_run n) = ControlFlow ex_C)"
proof -
  from RunInOrder_terminates [OF ex_finite ex_dom ex_maps, of ex_run] ex_Spec
  obtain n where "\<forall>m\<ge>n. Terminated ex_C (STF ex_C (ex_run m)) \<and>
      RIO_pendingTasks ex_C (ex_run m) = {} \<and> activeTasks ex_C (ex_run m) = {} \<and>
      terminatedTasks (ex_run m) = ControlFlow ex_C" by blast
  then have "Terminated ex_C (STF ex_C (ex_run n)) \<and>
      terminatedTasks (ex_run n) = ControlFlow ex_C" by blast
  then have "\<exists>n. Terminated ex_C (STF ex_C (ex_run n)) \<and>
      terminatedTasks (ex_run n) = ControlFlow ex_C" ..
  with ex_finite ex_dom ex_maps ex_Spec show ?thesis by blast
qed

subsection \<open>The random-dependencies driver\<close>

text \<open>
  Claim C7 is not what the driver does. The generator is seeded with \<open>0x92d68ca2\<close> and its
  first value gives the pairwise distinct indices 59, 18 and 73. The task submitted for it
  has the three handles in its slots but the codelet \<open>count2_codelet\<close>, which declares two
  buffers with modes read, read: the task accesses two handles, none of them for writing.
  \<open>count3_codelet\<close> (read, read, read-write) is defined and never used: for no value does
  the submitted task access more than two handles or access one for writing.
\<close>

theorem distinct_indices_submit_count2:
  "fst (rng_next rng_new) = 2665565789183166779 \<and>
   idx_1 2665565789183166779 = 59 \<and> idx_2 2665565789183166779 = 18 \<and>
   idx_3 2665565789183166779 = 73 \<and>
   run init 1 = Some [\<lparr>cl = count2_codelet, handles = [Handle 59, Handle 18, Handle 73]\<rparr>] \<and>
   nbuffers count2_codelet = 2 \<and> modes count2_codelet = [STARPU_R, STARPU_R] \<and>
   task_accesses \<lparr>cl = count2_codelet, handles = [Handle 59, Handle 18, Handle 73]\<rparr> =
     [(Handle 59, STARPU_R), (Handle 18, STARPU_R)] \<and>
   (\<forall>x. \<exists>task. run_body init x = Some task \<and> length (task_accesses task) \<le> 2 \<and>
      map snd (task_accesses task) = replicate (length (task_accesses task)) STARPU_R)"
proof -
  have "\<exists>task. run_body init x = Some task \<and> length (task_accesses task) \<le> 2 \<and>
      map snd (task_accesses task) = replicate (length (task_accesses task)) STARPU_R" for x
  proof -
    have b: "unat (idx_1 x) < 128" "unat (idx_2 x) < 128" "unat (idx_3 x) < 128"
      by (simp_all add: idx_1_def idx_2_def idx_3_def unat_mod_N_DATA)
    show ?thesis
      by (simp add: run_body_def H_read_init b task_accesses_def count1_codelet_def
          count2_codelet_def)
  qed
  then have all: "\<forall>x. \<exists>task. run_body init x = Some task \<and> length (task_accesses task) \<le> 2 \<and>
      map snd (task_accesses task) = replicate (length (task_accesses task)) STARPU_R" ..
  have "rng_next rng_new = (2665565789183166779, \<lparr>state = 2665565789183166779\<rparr>)"
    by (simp add: rng_next_def rng_new_def Let_def)
  then have "run init 1 = Some [\<lparr>cl = count2_codelet, handles = [Handle 59, Handle 18, Handle 73]\<rparr>]"
    by (simp add: run_def first_task)
  with all show ?thesis
    by (simp add: first_value first_indices task_accesses_def count2_codelet_def)
qed

text \<open>
  Claim C8, as stated, fails: the arm of the conditional taken when the three indices are
  pairwise distinct is reached, already for the first value of the generator.
\<close>

theorem else_branch_is_reached:
  "run_branch (fst (rng_next rng_new)) = Arm_else \<and>
   idx_1 (fst (rng_next rng_new)) \<noteq> idx_2 (fst (rng_next rng_new)) \<and>
   idx_1 (fst (rng_next rng_new)) \<noteq> idx_3 (fst (rng_next rng_new)) \<and>
   idx_2 (fst (rng_next rng_new)) \<noteq> idx_3 (fst (rng_next rng_new)) \<and>
   run_body init (fst (rng_next rng_new)) =
     Some \<lparr>cl = count2_codelet, handles = [Handle 59, Handle 18, Handle 73]\<rparr>"
  by (simp add: first_value first_task run_branch_def first_indices)

text \<open>
  Claim C8, amended. The last arm of the conditional in \<open>run\<close> is taken exactly when the
  three indices are pairwise distinct; it is the arm, and the only one, that fills three
  handle slots, with the handles of these indices; and it is reached for the first value of
  the generator.
\<close>

theorem else_branch_taken_iff_distinct:
  "(run_branch x = Arm_else \<longleftrightarrow>
      idx_1 x \<noteq> idx_2 x \<and> idx_1 x \<noteq> idx_3 x \<and> idx_2 x \<noteq> idx_3 x) \<and>
   (run_branch x = Arm_else \<longleftrightarrow>
      (\<exists>task. run_body init x = Some task \<and>
         handles task = [Handle (unat (idx_1 x)), Handle (unat (idx_2 x)),
                         Handle (unat (idx_3 x))])) \<and>
   run_branch (fst (rng_next rng_new)) = Arm_else"
proof -
  have b: "unat (idx_1 x) < 128" "unat (idx_2 x) < 128" "unat (idx_3 x) < 128"
    by (simp_all add: idx_1_def idx_2_def idx_3_def unat_mod_N_DATA)
  have 1: "run_branch x = Arm_else \<longleftrightarrow>
      idx_1 x \<noteq> idx_2 x \<and> idx_1 x \<noteq> idx_3 x \<and> idx_2 x \<noteq> idx_3 x"
    by (simp add: run_branch_def)
  have 2: "run_branch x = Arm_else \<longleftrightarrow>
      (\<exists>task. run_body init x = Some task \<and>
         handles task = [Handle (unat (idx_1 x)), Handle (unat (idx_2 x)),
                         Handle (unat (idx_3 x))])"
    by (cases "run_branch x") (simp_all add: run_body_by_branch H_read_init b)
  have 3: "run_branch (fst (rng_next rng_new)) = Arm_else"
    by (simp add: first_value run_branch_def first_indices)
  from 1 2 3 show ?thesis by (intro conjI)
qed

text \<open>
  Claim C8, amended, at the first value of the generator.
\<close>

theorem else_branch_taken_iff_distinct_witness:
  "run_branch 2665565789183166779 = Arm_else \<and>
   (\<exists>task. run_body init 2665565789183166779 = Some task \<and>
      handles task = [Handle (unat (idx_1 2665565789183166779)),
                      Handle (unat (idx_2 2665565789183166779)),
                      Handle (unat (idx_3 2665565789183166779))])"
proof -
  have "run_branch 2665565789183166779 = Arm_else"
    by (simp add: run_branch_def first_indices)
  with else_branch_taken_iff_distinct [of 2665565789183166779] show ?thesis by blast
qed

text \<open>
  Claim C10. Every index derived from a 64-bit value is below \<^verbatim>\<open>N_DATA\<close> = 128, which
  is the number of handles \<^verbatim>\<open>init\<close> allocates and registers; hence no read of \<^verbatim>\<open>H\<close>
  in the loop body of \<^verbatim>\<open>run\<close> is out of bounds.
\<close>

theorem counter_deps_reads_in_bounds:
  "unat (idx_1 x) < unat N_DATA \<and> unat (idx_2 x) < unat N_DATA \<and> unat (idx_3 x) < unat N_DATA
   \<and> unat N_DATA = 128 \<and> length init = unat N_DATA
   \<and> H_read init (idx_1 x) = Some (Handle (unat (idx_1 x)))
   \<and> H_read init (idx_2 x) = Some (Handle (unat (idx_2 x)))
   \<and> H_read init (idx_3 x) = Some (Handle (unat (idx_3 x)))
   \<and> run_body init x \<noteq> None"
proof -
  have b1: "unat (idx_1 x) < 128" and b2: "unat (idx_2 x) < 128" and b3: "unat (idx_3 x) < 128"
    by (simp_all add: idx_1_def idx_2_def idx_3_def unat_mod_N_DATA)
  have "run_body init x \<noteq> None"
    by (simp add: run_body_def H_read_init b1 b2 b3)
  with b1 b2 b3 show ?thesis
    by (simp add: unat_N_DATA length_init H_read_init)
qed

end
